theory Spec2Isabelle
  imports Main "HOL-Library.Word" "HOL-Library.Multiset"
begin

unbundle bit_operations_syntax

section \<open>FNV-1a digest (hash_string)\<close>

text \<open>
  The byte buffer is a list of 8-bit words; \<open>len\<close> is the size_t length argument. The running
  hash is a uint32_t, so \<open>XOR\<close> and \<open>*\<close> are taken on 32-bit words (multiplication wraps), each
  byte is zero-extended before the \<open>XOR\<close>, and the result is zero-extended to uint64_t.
  Indices are size_t values bounded by the length of an allocated buffer and are natural
  numbers here. The function reads \<open>data[0]\<close> to \<open>data[len - 1]\<close>, so the buffer holds at least
  \<open>len\<close> bytes; the theorem takes \<open>len\<close> to be the length of the list.
\<close>

definition INITIAL :: "32 word" where
  "INITIAL = 0x811C9DC5"

definition MULTIPLIER :: "32 word" where
  "MULTIPLIER = 0x01000193"

text \<open>The first loop of hash_string: four bytes per iteration while \<open>i + 4 \<le> len\<close>.\<close>

function hash_loop4 :: "8 word list \<Rightarrow> nat \<Rightarrow> nat \<Rightarrow> 32 word \<Rightarrow> nat \<times> 32 word" where
  "hash_loop4 data len i hash =
     (if i + 4 \<le> len then
        let hash = (hash XOR ucast (data ! i)) * MULTIPLIER;
            hash = (hash XOR ucast (data ! (i + 1))) * MULTIPLIER;
            hash = (hash XOR ucast (data ! (i + 2))) * MULTIPLIER;
            hash = (hash XOR ucast (data ! (i + 3))) * MULTIPLIER
        in hash_loop4 data len (i + 4) hash
      else (i, hash))"
  by pat_completeness auto
termination
  by (relation "measure (\<lambda>(data, len, i, hash). len - i)") auto

text \<open>The second loop: the remaining bytes one at a time while \<open>i < len\<close>.\<close>

function hash_loop1 :: "8 word list \<Rightarrow> nat \<Rightarrow> nat \<Rightarrow> 32 word \<Rightarrow> 32 word" where
  "hash_loop1 data len i hash =
     (if i < len then hash_loop1 data len (i + 1) ((hash XOR ucast (data ! i)) * MULTIPLIER)
      else hash)"
  by pat_completeness auto
termination
  by (relation "measure (\<lambda>(data, len, i, hash). len - i)") auto

definition hash_string :: "8 word list \<Rightarrow> nat \<Rightarrow> 64 word" where
  "hash_string data len =
     (let (i, hash) = hash_loop4 data len 0 INITIAL
      in ucast (hash_loop1 data len i hash))"

text \<open>
  The digest as the specification words it: 32-bit FNV-1a, one byte at a time, from the
  offset basis, with the prime as multiplier.
\<close>

fun fnv1a_step :: "32 word \<Rightarrow> 8 word \<Rightarrow> 32 word" where
  "fnv1a_step h b = (h XOR ucast b) * 0x01000193"

definition fnv1a32_spec :: "8 word list \<Rightarrow> 32 word" where
  "fnv1a32_spec bytes = foldl fnv1a_step 0x811C9DC5 bytes"

section \<open>Nodes and tables (HNode, HTable)\<close>

text \<open>
  An HNode carries its 64-bit hash code and the caller's data. The \<open>next_\<close> member is a
  unique_ptr to the next node of the same bucket, so a bucket is a chain of exclusively
  owned nodes: it is a list here, whose head is the node the bucket slot owns and whose
  tail is what \<open>next_\<close> of the head owns. A null unique_ptr is the empty list.

  size_t values (sizes, capacities, masks, positions) are bounded by the number of allocated
  nodes and bucket slots and are natural numbers here. A failed assert and an access beyond
  the end of the bucket vector are values of type \<open>error\<close>.

  A member \<open>x_\<close> of the source is the field \<open>x\<close>; \<open>mask_\<close> and \<open>size_\<close> are \<open>mask_m\<close> and
  \<open>size_m\<close>.
\<close>

datatype error = AssertionFailed | OutOfRange

record 'a HNode =
  hcode :: "64 word"
  payload :: 'a

type_synonym 'a comparator = "'a HNode \<Rightarrow> 'a HNode \<Rightarrow> bool"

record 'a HTable =
  buckets :: "'a HNode list list"
  mask_m :: nat
  size_m :: nat

definition k_min_cap :: nat where
  "k_min_cap = 4"

text \<open>std::has_single_bit: exactly one bit is set.\<close>

definition has_single_bit :: "nat \<Rightarrow> bool" where
  "has_single_bit n = (n \<noteq> 0 \<and> n AND (n - 1) = 0)"

text \<open>std::bit_ceil: the smallest power of two that is not smaller than the argument.\<close>

function bit_ceil_from :: "nat \<Rightarrow> nat \<Rightarrow> nat" where
  "bit_ceil_from p n = (if n \<le> p \<or> p = 0 then p else bit_ceil_from (2 * p) n)"
  by pat_completeness auto
termination
  by (relation "measure (\<lambda>(p, n). n - p)") auto

definition bit_ceil :: "nat \<Rightarrow> nat" where
  "bit_ceil n = bit_ceil_from 1 n"

text \<open>std::vector::resize on the bucket vector: new slots hold null pointers.\<close>

definition vector_resize :: "nat \<Rightarrow> 'a list list \<Rightarrow> 'a list list" where
  "vector_resize n v = take n v @ replicate (n - length v) []"

definition initialize :: "nat \<Rightarrow> 'a HTable \<Rightarrow> error + 'a HTable" where
  "initialize capacity t =
     (if has_single_bit capacity then
        let capacity = max capacity k_min_cap
        in Inr (t\<lparr>buckets := vector_resize capacity (buckets t),
                  mask_m := capacity - 1, size_m := 0\<rparr>)
      else Inl AssertionFailed)"

text \<open>The members' default initialisers: no buckets, mask 0, size 0.\<close>

definition HTable_default :: "'a HTable" where
  "HTable_default = \<lparr>buckets = [], mask_m = 0, size_m = 0\<rparr>"

text \<open>The constructor \<open>HTable(initial_size)\<close>.\<close>

definition HTable_ctor :: "nat \<Rightarrow> error + 'a HTable" where
  "HTable_ctor initial_size =
     (if initial_size > 0 then initialize (bit_ceil initial_size) HTable_default
      else Inr HTable_default)"

definition HTable_size :: "'a HTable \<Rightarrow> nat" where
  "HTable_size t = size_m t"

definition HTable_capacity :: "'a HTable \<Rightarrow> nat" where
  "HTable_capacity t = mask_m t + 1"

definition HTable_empty :: "'a HTable \<Rightarrow> bool" where
  "HTable_empty t = (size_m t = 0)"

text \<open>HTable::insert: the node becomes the head of its bucket's chain.\<close>

definition HTable_insert :: "'a HTable \<Rightarrow> 'a HNode \<Rightarrow> error + 'a HTable" where
  "HTable_insert t node =
     (case (if buckets t = [] then initialize k_min_cap t else Inr t) of
        Inl e \<Rightarrow> Inl e
      | Inr t \<Rightarrow>
          let pos = unat (hcode node) AND mask_m t
          in if pos < length (buckets t) then
               Inr (t\<lparr>buckets := (buckets t)[pos := node # buckets t ! pos],
                       size_m := size_m t + 1\<rparr>)
             else Inl OutOfRange)"

text \<open>The chain walk of HTable::lookup: the first node the comparator accepts.\<close>

fun chain_lookup :: "'a comparator \<Rightarrow> 'a HNode \<Rightarrow> 'a HNode list \<Rightarrow> 'a HNode option" where
  "chain_lookup comparator key [] = None"
| "chain_lookup comparator key (current # rest) =
     (if comparator current key then Some current else chain_lookup comparator key rest)"

definition HTable_lookup ::
  "'a HTable \<Rightarrow> 'a HNode \<Rightarrow> 'a comparator \<Rightarrow> error + 'a HNode option" where
  "HTable_lookup t key comparator =
     (if buckets t = [] then Inr None
      else
        let pos = unat (hcode key) AND mask_m t
        in if pos < length (buckets t) then Inr (chain_lookup comparator key (buckets t ! pos))
           else Inl OutOfRange)"

text \<open>
  The chain walk of HTable::remove: the first node the comparator accepts is unlinked (the
  predecessor, or the bucket slot for the head, takes over its \<open>next_\<close>) and returned with
  the chain that remains.
\<close>

fun chain_remove ::
  "'a comparator \<Rightarrow> 'a HNode \<Rightarrow> 'a HNode list \<Rightarrow> 'a HNode option \<times> 'a HNode list" where
  "chain_remove comparator key [] = (None, [])"
| "chain_remove comparator key (current # rest) =
     (if comparator current key then (Some current, rest)
      else let (node, rest') = chain_remove comparator key rest in (node, current # rest'))"

text \<open>HTable::remove. The function never writes \<open>size_m\<close>.\<close>

definition HTable_remove ::
  "'a HTable \<Rightarrow> 'a HNode \<Rightarrow> 'a comparator \<Rightarrow> error + ('a HNode option \<times> 'a HTable)" where
  "HTable_remove t key comparator =
     (if buckets t = [] then Inr (None, t)
      else
        let pos = unat (hcode key) AND mask_m t
        in if pos < length (buckets t) then
             let (node, chain) = chain_remove comparator key (buckets t ! pos)
             in Inr (node, t\<lparr>buckets := (buckets t)[pos := chain]\<rparr>)
           else Inl OutOfRange)"

section \<open>The dictionary (HMap)\<close>

record 'a HMap =
  primary_table :: "'a HTable"
  temporary_table :: "'a HTable option"
  resizing_pos :: nat

definition HMap_default :: "'a HMap" where
  "HMap_default = \<lparr>primary_table = HTable_default, temporary_table = None, resizing_pos = 0\<rparr>"

definition max_work :: nat where
  "max_work = 15"

definition k_max_load_factor :: nat where
  "k_max_load_factor = 8"

definition start_resize :: "'a HMap \<Rightarrow> error + 'a HMap" where
  "start_resize m =
     (case temporary_table m of
        Some t \<Rightarrow> Inl AssertionFailed
      | None \<Rightarrow>
          let new_capacity = HTable_capacity (primary_table m) * 2
          in (case HTable_ctor new_capacity of
                Inl e \<Rightarrow> Inl e
              | Inr p \<Rightarrow>
                  Inr \<lparr>primary_table = p, temporary_table = Some (primary_table m),
                       resizing_pos = 0\<rparr>))"

text \<open>
  The while loop of help_resize, on the variables it changes: \<open>work_done\<close>, the primary
  table, the temporary table and \<open>resizing_pos\<close>. The loop need not end, so its result is an
  option: \<open>None\<close> means that it runs forever.
\<close>

partial_function (option) help_resize_loop ::
  "nat \<Rightarrow> 'a HTable \<Rightarrow> 'a HTable \<Rightarrow> nat \<Rightarrow> (error + 'a HTable \<times> 'a HTable \<times> nat) option" where
  "help_resize_loop work_done primary tmp pos =
     (if work_done < max_work \<and> \<not> HTable_empty tmp then
        let pos = (if pos \<ge> HTable_capacity tmp then 0 else pos)
        in if pos < length (buckets tmp) then
             (case buckets tmp ! pos of
                node # rest \<Rightarrow>
                  (case HTable_insert primary node of
                     Inl e \<Rightarrow> Some (Inl e)
                   | Inr primary \<Rightarrow>
                       help_resize_loop (work_done + 1) primary
                         (tmp\<lparr>buckets := (buckets tmp)[pos := rest], size_m := size_m tmp - 1\<rparr>)
                         pos)
              | [] \<Rightarrow> help_resize_loop work_done primary tmp (pos + 1))
           else Some (Inl OutOfRange)
      else Some (Inr (primary, tmp, pos)))"

declare help_resize_loop.simps [code]

definition help_resize :: "'a HMap \<Rightarrow> (error + 'a HMap) option" where
  "help_resize m =
     (case temporary_table m of
        None \<Rightarrow> Some (Inr m)
      | Some tmp \<Rightarrow>
          (case help_resize_loop 0 (primary_table m) tmp (resizing_pos m) of
             None \<Rightarrow> None
           | Some (Inl e) \<Rightarrow> Some (Inl e)
           | Some (Inr (primary, tmp, pos)) \<Rightarrow>
               if HTable_empty tmp then
                 Some (Inr \<lparr>primary_table = primary, temporary_table = None, resizing_pos = 0\<rparr>)
               else
                 Some (Inr \<lparr>primary_table = primary, temporary_table = Some tmp,
                            resizing_pos = pos\<rparr>)))"

definition HMap_insert :: "'a HMap \<Rightarrow> 'a HNode \<Rightarrow> (error + 'a HMap) option" where
  "HMap_insert m node =
     (case (if HTable_empty (primary_table m) then HTable_ctor k_min_cap
            else Inr (primary_table m)) of
        Inl e \<Rightarrow> Some (Inl e)
      | Inr primary \<Rightarrow>
          (case HTable_insert primary node of
             Inl e \<Rightarrow> Some (Inl e)
           | Inr primary \<Rightarrow>
               let m = m\<lparr>primary_table := primary\<rparr>
               in (case (if temporary_table m = None then
                           let load_factor = HTable_size primary div HTable_capacity primary
                           in if load_factor \<ge> k_max_load_factor then start_resize m else Inr m
                         else Inr m) of
                     Inl e \<Rightarrow> Some (Inl e)
                   | Inr m \<Rightarrow> help_resize m)))"

text \<open>
  HMap::find and HMap::remove return the node found (\<open>None\<close> for the null pointer) and the
  dictionary as help_resize and the removal leave it.
\<close>

definition HMap_find ::
  "'a HMap \<Rightarrow> 'a HNode \<Rightarrow> 'a comparator \<Rightarrow> (error + 'a HNode option \<times> 'a HMap) option" where
  "HMap_find m key comparator =
     (case help_resize m of
        None \<Rightarrow> None
      | Some (Inl e) \<Rightarrow> Some (Inl e)
      | Some (Inr m) \<Rightarrow>
          (case HTable_lookup (primary_table m) key comparator of
             Inl e \<Rightarrow> Some (Inl e)
           | Inr (Some node) \<Rightarrow> Some (Inr (Some node, m))
           | Inr None \<Rightarrow>
               (case temporary_table m of
                  None \<Rightarrow> Some (Inr (None, m))
                | Some tmp \<Rightarrow>
                    (case HTable_lookup tmp key comparator of
                       Inl e \<Rightarrow> Some (Inl e)
                     | Inr node \<Rightarrow> Some (Inr (node, m))))))"

definition HMap_remove ::
  "'a HMap \<Rightarrow> 'a HNode \<Rightarrow> 'a comparator \<Rightarrow> (error + 'a HNode option \<times> 'a HMap) option" where
  "HMap_remove m key comparator =
     (case help_resize m of
        None \<Rightarrow> None
      | Some (Inl e) \<Rightarrow> Some (Inl e)
      | Some (Inr m) \<Rightarrow>
          (case HTable_remove (primary_table m) key comparator of
             Inl e \<Rightarrow> Some (Inl e)
           | Inr (Some node, primary) \<Rightarrow> Some (Inr (Some node, m\<lparr>primary_table := primary\<rparr>))
           | Inr (None, primary) \<Rightarrow>
               (case temporary_table m of
                  None \<Rightarrow> Some (Inr (None, m\<lparr>primary_table := primary\<rparr>))
                | Some tmp \<Rightarrow>
                    (case HTable_remove tmp key comparator of
                       Inl e \<Rightarrow> Some (Inl e)
                     | Inr (node, tmp) \<Rightarrow>
                         Some (Inr (node, m\<lparr>primary_table := primary,
                                           temporary_table := Some tmp\<rparr>))))))"

definition HMap_size :: "'a HMap \<Rightarrow> nat" where
  "HMap_size m =
     HTable_size (primary_table m) +
     (case temporary_table m of Some tmp \<Rightarrow> HTable_size tmp | None \<Rightarrow> 0)"

definition HMap_empty :: "'a HMap \<Rightarrow> bool" where
  "HMap_empty m = (HMap_size m = 0)"

section \<open>Invariants, operation sequences and the scenario\<close>

text \<open>
  The nodes a table owns, bucket after bucket, and the nodes the dictionary owns, as a
  multiset: a node value that is stored twice counts twice.
\<close>

definition entries :: "'a HTable \<Rightarrow> 'a HNode list" where
  "entries t = concat (buckets t)"

definition all_entries :: "'a HMap \<Rightarrow> 'a HNode multiset" where
  "all_entries m =
     mset (entries (primary_table m)) +
     (case temporary_table m of None \<Rightarrow> {#} | Some tmp \<Rightarrow> mset (entries tmp))"

definition tmp_entries :: "'a HMap \<Rightarrow> 'a HNode multiset" where
  "tmp_entries m = (case temporary_table m of None \<Rightarrow> {#} | Some tmp \<Rightarrow> mset (entries tmp))"

text \<open>
  The invariants of the data model. A table is either untouched (no buckets, mask 0, size 0)
  or has \<open>2 ^ k\<close> buckets for some \<open>k \<ge> 2\<close> and the mask \<open>2 ^ k - 1\<close>; every node of bucket \<open>i\<close>
  has \<open>hcode AND mask = i\<close>; the size counter is not smaller than the number of nodes
  (\<open>table_counted\<close>) or equal to it (\<open>table_exact\<close>). The dictionary's retiring table, when
  there is one, has buckets.
\<close>

definition table_wf :: "'a HTable \<Rightarrow> bool" where
  "table_wf t =
     ((buckets t = [] \<and> mask_m t = 0 \<and> size_m t = 0) \<or>
      (\<exists>k\<ge>2. length (buckets t) = 2 ^ k \<and> mask_m t = 2 ^ k - 1))"

definition table_placed :: "'a HTable \<Rightarrow> bool" where
  "table_placed t =
     (\<forall>i\<in>{0..<length (buckets t)}. \<forall>n\<in>set (buckets t ! i). unat (hcode n) AND mask_m t = i)"

definition table_counted :: "'a HTable \<Rightarrow> bool" where
  "table_counted t = (length (entries t) \<le> size_m t)"

definition table_exact :: "'a HTable \<Rightarrow> bool" where
  "table_exact t = (length (entries t) = size_m t)"

definition table_inv :: "'a HTable \<Rightarrow> bool" where
  "table_inv t = (table_wf t \<and> table_placed t \<and> table_counted t)"

definition hmap_inv :: "'a HMap \<Rightarrow> bool" where
  "hmap_inv m =
     (table_inv (primary_table m) \<and>
      (case temporary_table m of None \<Rightarrow> True | Some tmp \<Rightarrow> table_inv tmp \<and> buckets tmp \<noteq> []))"

definition hmap_exact :: "'a HMap \<Rightarrow> bool" where
  "hmap_exact m =
     (table_exact (primary_table m) \<and>
      (case temporary_table m of None \<Rightarrow> True | Some tmp \<Rightarrow> table_exact tmp))"

text \<open>
  The contract of the caller's comparator: it accepts a node for a probe only when the two
  have the same hash code.
\<close>

definition respects_hcode :: "'a comparator \<Rightarrow> bool" where
  "respects_hcode comparator = (\<forall>a b. comparator a b \<longrightarrow> hcode a = hcode b)"

text \<open>
  The calls a client can make, and the run of a sequence of calls from a dictionary; the run
  stops at the first call that fails or does not return.
\<close>

datatype 'a op =
    is_Insert: Insert "'a HNode"
  | is_Find: Find "'a HNode" "'a comparator"
  | is_Remove: Remove "'a HNode" "'a comparator"

fun apply_op :: "'a HMap \<Rightarrow> 'a op \<Rightarrow> (error + 'a HMap) option" where
  "apply_op m (Insert node) = HMap_insert m node"
| "apply_op m (Find key comparator) = map_option (map_sum id snd) (HMap_find m key comparator)"
| "apply_op m (Remove key comparator) = map_option (map_sum id snd) (HMap_remove m key comparator)"

fun run_ops :: "'a HMap \<Rightarrow> 'a op list \<Rightarrow> (error + 'a HMap) option" where
  "run_ops m [] = Some (Inr m)"
| "run_ops m (x # xs) =
     (case apply_op m x of Some (Inr m') \<Rightarrow> run_ops m' xs | r \<Rightarrow> r)"

text \<open>What lookup finds in one table, in the retiring table, and in both.\<close>

definition found_in :: "'a HTable \<Rightarrow> 'a HNode \<Rightarrow> 'a comparator \<Rightarrow> bool" where
  "found_in t key comparator =
     (case HTable_lookup t key comparator of Inr (Some node) \<Rightarrow> True | _ \<Rightarrow> False)"

definition found_in_tmp :: "'a HMap \<Rightarrow> 'a HNode \<Rightarrow> 'a comparator \<Rightarrow> bool" where
  "found_in_tmp m key comparator =
     (case temporary_table m of None \<Rightarrow> False | Some tmp \<Rightarrow> found_in tmp key comparator)"

definition found_in_both ::
  "(error + 'a HMap) option \<Rightarrow> 'a HNode \<Rightarrow> 'a comparator \<Rightarrow> bool" where
  "found_in_both r key comparator =
     (case r of
        Some (Inr m) \<Rightarrow>
          found_in (primary_table m) key comparator \<and> found_in_tmp m key comparator
      | _ \<Rightarrow> False)"

text \<open>
  The scenario of the specification: the node of key \<open>k\<close> has hash code \<open>k\<close>, the comparator
  compares hash codes and keys, and \<open>status\<close> reads size(), the capacity of the current table
  and the capacity of the retiring table off the result of a run.
\<close>

definition key_node :: "nat \<Rightarrow> nat HNode" where
  "key_node k = \<lparr>hcode = of_nat k, payload = k\<rparr>"

definition same_key :: "nat comparator" where
  "same_key a b = (hcode a = hcode b \<and> payload a = payload b)"

text \<open>A comparator that looks at the key only, whatever the hash codes are.\<close>

definition same_payload :: "nat comparator" where
  "same_payload a b = (payload a = payload b)"

definition insert_keys :: "nat list \<Rightarrow> nat op list" where
  "insert_keys ks = map (\<lambda>k. Insert (key_node k)) ks"

definition status :: "(error + 'a HMap) option \<Rightarrow> (nat \<times> nat \<times> nat option) option" where
  "status r =
     (case r of
        Some (Inr m) \<Rightarrow>
          Some (HMap_size m, HTable_capacity (primary_table m),
                map_option HTable_capacity (temporary_table m))
      | _ \<Rightarrow> None)"

definition findable :: "'a HMap \<Rightarrow> 'a HNode \<Rightarrow> 'a comparator \<Rightarrow> bool" where
  "findable m key comparator =
     (case HMap_find m key comparator of
        Some (Inr (Some node, m')) \<Rightarrow> comparator node key
      | _ \<Rightarrow> False)"

definition all_findable :: "(error + nat HMap) option \<Rightarrow> nat list \<Rightarrow> bool" where
  "all_findable r ks =
     (case r of
        Some (Inr m) \<Rightarrow> list_all (\<lambda>k. findable m (key_node k) same_key) ks
      | _ \<Rightarrow> False)"

definition count_matching :: "'a comparator \<Rightarrow> 'a HNode \<Rightarrow> 'a HNode multiset \<Rightarrow> nat" where
  "count_matching comparator key M = size (filter_mset (\<lambda>n. comparator n key) M)"

text \<open>
  States of the scenario, written out: \<open>demo_full\<close> holds keys 0..31 in the first table, as
  insert has it when it calls start_resize; \<open>demo_started\<close> is that state after start_resize;
  \<open>demo_mid\<close> after the first slice of help_resize (the state after the insert of key 31);
  \<open>demo_late\<close> after the insert of key 32; \<open>demo_drained\<close> after one more find;
  \<open>demo_removed\<close> is \<open>demo_mid\<close> after a remove of key 7. \<open>demo_31\<close> is the state after the
  inserts of keys 0..30, and \<open>demo_one\<close> the state after the insert of key 0 alone.
\<close>

definition keys_table :: "nat list list \<Rightarrow> nat \<Rightarrow> nat \<Rightarrow> nat HTable" where
  "keys_table kss msk sz = \<lparr>buckets = map (map key_node) kss, mask_m = msk, size_m = sz\<rparr>"

definition demo_full :: "nat HMap" where
  "demo_full =
     \<lparr>primary_table =
        keys_table [[28, 24, 20, 16, 12, 8, 4, 0], [29, 25, 21, 17, 13, 9, 5, 1],
                    [30, 26, 22, 18, 14, 10, 6, 2], [31, 27, 23, 19, 15, 11, 7, 3]] 3 32,
      temporary_table = None, resizing_pos = 0\<rparr>"

definition demo_started :: "nat HMap" where
  "demo_started =
     \<lparr>primary_table = keys_table [[], [], [], [], [], [], [], []] 7 0,
      temporary_table = Some (primary_table demo_full), resizing_pos = 0\<rparr>"

definition demo_mid :: "nat HMap" where
  "demo_mid =
     \<lparr>primary_table =
        keys_table [[0, 8, 16, 24], [9, 17, 25], [], [], [4, 12, 20, 28], [5, 13, 21, 29], [], []]
          7 15,
      temporary_table =
        Some (keys_table [[], [1], [30, 26, 22, 18, 14, 10, 6, 2],
                          [31, 27, 23, 19, 15, 11, 7, 3]] 3 17),
      resizing_pos = 1\<rparr>"

definition demo_late :: "nat HMap" where
  "demo_late =
     \<lparr>primary_table =
        keys_table [[32, 0, 8, 16, 24], [1, 9, 17, 25], [2, 10, 18, 26], [11, 19, 27],
                    [4, 12, 20, 28], [5, 13, 21, 29], [6, 14, 22, 30], [15, 23, 31]] 7 31,
      temporary_table = Some (keys_table [[], [], [], [7, 3]] 3 2),
      resizing_pos = 3\<rparr>"

definition demo_removed :: "nat HMap" where
  "demo_removed =
     \<lparr>primary_table =
        keys_table [[0, 8, 16, 24], [1, 9, 17, 25], [2, 10, 18, 26], [11, 19, 27],
                    [4, 12, 20, 28], [5, 13, 21, 29], [6, 14, 22, 30], [15, 23, 31]] 7 30,
      temporary_table = Some (keys_table [[], [], [], [3]] 3 2),
      resizing_pos = 3\<rparr>"

definition demo_drained :: "nat HMap" where
  "demo_drained =
     \<lparr>primary_table =
        keys_table [[32, 0, 8, 16, 24], [1, 9, 17, 25], [2, 10, 18, 26], [3, 11, 19, 27],
                    [4, 12, 20, 28], [5, 13, 21, 29], [6, 14, 22, 30], [7, 15, 23, 31]] 7 33,
      temporary_table = None, resizing_pos = 0\<rparr>"


definition demo_one :: "nat HMap" where
  "demo_one =
     \<lparr>primary_table = keys_table [[0], [], [], []] 3 1,
      temporary_table = None, resizing_pos = 0\<rparr>"

section \<open>Proofs\<close>

declare hash_loop4.simps [simp del] hash_loop1.simps [simp del]

lemma fnv1a_step_fold: "(h XOR ucast b) * MULTIPLIER = fnv1a_step h b"
  by (simp add: MULTIPLIER_def)

declare fnv1a_step.simps [simp del]

lemma hash_loop1_foldl:
  "len = length data \<Longrightarrow> i \<le> len \<Longrightarrow>
   hash_loop1 data len i h = foldl fnv1a_step h (drop i data)"
proof (induction data len i h rule: hash_loop1.induct)
  case (1 data len i hash)
  show ?case
  proof (cases "i < len")
    case True
    with "1.prems" have d: "drop i data = data ! i # drop (i + 1) data"
      by (simp add: Cons_nth_drop_Suc)
    from True "1.prems" "1.IH" show ?thesis
      by (subst hash_loop1.simps) (simp add: d fnv1a_step_fold)
  next
    case False
    with "1.prems" show ?thesis
      by (subst hash_loop1.simps) simp
  qed
qed

lemma hash_loop4_foldl:
  "len = length data \<Longrightarrow> i \<le> len \<Longrightarrow> hash_loop4 data len i h = (j, h') \<Longrightarrow>
   j \<le> len \<and> foldl fnv1a_step h' (drop j data) = foldl fnv1a_step h (drop i data)"
proof (induction data len i h rule: hash_loop4.induct)
  case (1 data len i hash)
  show ?case
  proof (cases "i + 4 \<le> len")
    case True
    with "1.prems" have d: "drop i data =
        data ! i # data ! (i + 1) # data ! (i + 2) # data ! (i + 3) # drop (i + 4) data"
      by (simp add: Cons_nth_drop_Suc [symmetric] numeral_eq_Suc)
    from True "1.prems" have
      "hash_loop4 data len (i + 4)
         ((((((((hash XOR ucast (data ! i)) * MULTIPLIER) XOR ucast (data ! (i + 1))) * MULTIPLIER)
            XOR ucast (data ! (i + 2))) * MULTIPLIER) XOR ucast (data ! (i + 3))) * MULTIPLIER)
       = (j, h')"
      by (subst (asm) hash_loop4.simps) (simp add: Let_def)
    with True "1.prems" "1.IH" [OF True refl refl refl refl] show ?thesis
      by (simp add: d fnv1a_step_fold)
  next
    case False
    with "1.prems" show ?thesis
      by (subst (asm) hash_loop4.simps) auto
  qed
qed

text \<open>
  C4: for a byte sequence of length \<open>len\<close>, hash_string returns the 32-bit FNV-1a digest
  (offset basis 0x811C9DC5, prime 0x01000193, one byte at a time) zero-extended to 64 bits:
  the unrolled loop followed by the tail loop computes what the plain per-byte loop computes,
  and the returned value is below 2^32.
\<close>

theorem hash_string_fnv1a:
  "hash_string data (length data) = ucast (fnv1a32_spec data) \<and>
   unat (hash_string data (length data)) < 2 ^ 32"
proof -
  obtain j h' where l4: "hash_loop4 data (length data) 0 INITIAL = (j, h')"
    by (cases "hash_loop4 data (length data) 0 INITIAL")
  from hash_loop4_foldl [OF refl _ l4]
  have j: "j \<le> length data"
    and f: "foldl fnv1a_step h' (drop j data) = foldl fnv1a_step INITIAL data"
    by simp_all
  have "hash_string data (length data) = ucast (foldl fnv1a_step INITIAL data)"
    by (simp add: hash_string_def l4 hash_loop1_foldl [OF refl j] f)
  then have eq: "hash_string data (length data) = ucast (fnv1a32_spec data)"
    by (simp add: fnv1a32_spec_def INITIAL_def)
  have "unat (ucast (fnv1a32_spec data) :: 64 word) = take_bit 64 (unat (fnv1a32_spec data))"
    by (simp add: unsigned_ucast_eq)
  also have "\<dots> \<le> unat (fnv1a32_spec data)"
    by (rule take_bit_nat_less_eq_self)
  also have "unat (fnv1a32_spec data) < 2 ^ 32"
    using unsigned_less [of "fnv1a32_spec data", where 'a = nat] by simp
  finally show ?thesis
    using eq by simp
qed

lemma and_mask_le: "(x::nat) AND m \<le> m"
  by (metis AND_upper2 of_nat_0_le_iff of_nat_and_eq of_nat_le_iff)

lemma pow2_and_pred: "(2::nat) ^ k AND (2 ^ k - 1) = 0"
proof -
  have "(2::nat) ^ k - 1 = mask k" by (simp add: mask_eq_exp_minus_1)
  then show ?thesis by (simp add: take_bit_eq_mask [symmetric])
qed

lemma has_single_bit_pow2: "has_single_bit (2 ^ k)"
  using pow2_and_pred [of k] by (simp add: has_single_bit_def)

declare bit_ceil_from.simps [simp del]

lemma bit_ceil_from_pow2:
  "j \<le> k \<Longrightarrow> bit_ceil_from (2 ^ j) (2 ^ k) = 2 ^ k"
proof (induction "k - j" arbitrary: j)
  case 0
  then show ?case by (subst bit_ceil_from.simps) simp
next
  case (Suc d)
  then have lt: "j < k" by simp
  then have "(2::nat) ^ j < 2 ^ k" by simp
  moreover have "bit_ceil_from (2 ^ Suc j) (2 ^ k) = 2 ^ k"
    using Suc lt by (intro Suc.hyps(1)) auto
  ultimately show ?case by (subst bit_ceil_from.simps) simp
qed

lemma bit_ceil_pow2: "bit_ceil (2 ^ k) = 2 ^ k"
  using bit_ceil_from_pow2 [of 0 k] by (simp add: bit_ceil_def)

lemma bit_ceil_from_is_pow2: "\<exists>k. bit_ceil_from (2 ^ j) n = 2 ^ k"
proof (induction "2 ^ j :: nat" n arbitrary: j rule: bit_ceil_from.induct)
  case (1 n)
  show ?case
  proof (cases "n \<le> 2 ^ j")
    case True
    then show ?thesis by (subst bit_ceil_from.simps) auto
  next
    case False
    then have "\<exists>k. bit_ceil_from (2 ^ Suc j) n = 2 ^ k"
      by (intro "1.hyps") auto
    with False show ?thesis by (subst bit_ceil_from.simps) simp
  qed
qed

lemma bit_ceil_is_pow2: "\<exists>k. bit_ceil n = 2 ^ k"
  using bit_ceil_from_is_pow2 [of 0 n] by (simp add: bit_ceil_def)

lemma initialize_pow2:
  "initialize (2 ^ k) HTable_default =
     Inr \<lparr>buckets = replicate (max (2 ^ k) 4) [], mask_m = max (2 ^ k) 4 - 1, size_m = 0\<rparr>"
  by (simp add: initialize_def has_single_bit_pow2 HTable_default_def vector_resize_def
      k_min_cap_def Let_def)

lemma max_pow2_4: "\<exists>k'\<ge>2. max ((2::nat) ^ k) 4 = 2 ^ k'"
proof (cases "2 \<le> k")
  case True
  then have "(2::nat) ^ 2 \<le> 2 ^ k" by (rule power_increasing) simp
  then have "max ((2::nat) ^ k) 4 = 2 ^ k" by simp
  with True show ?thesis by blast
next
  case False
  then have "k \<le> 2" by simp
  then have "(2::nat) ^ k \<le> 2 ^ 2" by (rule power_increasing) simp
  then have "max ((2::nat) ^ k) 4 = 2 ^ 2" by simp
  then show ?thesis by blast
qed

lemma HTable_ctor_pos:
  assumes "0 < n"
  shows "\<exists>k\<ge>2. HTable_ctor n = Inr \<lparr>buckets = replicate (2 ^ k) [], mask_m = 2 ^ k - 1, size_m = 0\<rparr>"
proof -
  obtain j where j: "bit_ceil n = 2 ^ j" using bit_ceil_is_pow2 by blast
  obtain k where k: "2 \<le> k" "max ((2::nat) ^ j) 4 = 2 ^ k" using max_pow2_4 by blast
  from assms have "HTable_ctor n = Inr \<lparr>buckets = replicate (2 ^ k) [], mask_m = 2 ^ k - 1, size_m = 0\<rparr>"
    by (simp add: HTable_ctor_def j initialize_pow2 k(2))
  with k(1) show ?thesis by blast
qed

lemma HTable_ctor_pow2:
  assumes "2 \<le> k"
  shows "HTable_ctor (2 ^ k) = Inr \<lparr>buckets = replicate (2 ^ k) [], mask_m = 2 ^ k - 1, size_m = 0\<rparr>"
proof -
  from assms have "(2::nat) ^ 2 \<le> 2 ^ k" by (intro power_increasing) simp_all
  then have "max ((2::nat) ^ k) 4 = 2 ^ k" by simp
  then show ?thesis
    by (simp add: HTable_ctor_def bit_ceil_pow2 initialize_pow2)
qed

subsection \<open>Bucket vectors\<close>

lemma concat_update:
  "i < length xs \<Longrightarrow> concat (xs[i := ys]) = concat (take i xs) @ ys @ concat (drop (Suc i) xs)"
  by (simp add: upd_conv_take_nth_drop)

lemma concat_nth_split:
  "i < length xs \<Longrightarrow> concat xs = concat (take i xs) @ xs ! i @ concat (drop (Suc i) xs)"
  using concat_update [of i xs "xs ! i"] by simp

lemma mset_concat_update:
  "i < length xs \<Longrightarrow>
   mset (concat (xs[i := ys])) + mset (xs ! i) = mset (concat xs) + mset ys"
  by (simp add: concat_update concat_nth_split [of i xs])

lemma mset_concat_cons:
  "i < length xs \<Longrightarrow> mset (concat (xs[i := n # xs ! i])) = add_mset n (mset (concat xs))"
  using mset_concat_update [of i xs "n # xs ! i"] by simp

lemma mset_concat_tail:
  "i < length xs \<Longrightarrow> xs ! i = n # rest \<Longrightarrow>
   add_mset n (mset (concat (xs[i := rest]))) = mset (concat xs)"
  using mset_concat_update [of i xs rest] by simp

lemma concat_replicate_Nil: "concat (replicate n []) = []"
  by (induction n) simp_all

lemma concat_replicate_update:
  "i < n \<Longrightarrow> concat ((replicate n [])[i := [x]]) = [x]"
  by (simp add: concat_update concat_replicate_Nil)

lemma concat_eq_Nil_all: "concat xs = [] \<Longrightarrow> i < length xs \<Longrightarrow> xs ! i = []"
  by (metis concat_eq_Nil_conv nth_mem)

subsection \<open>HTable::insert\<close>

lemma initialize_min_cap:
  "initialize k_min_cap t =
     Inr (t\<lparr>buckets := vector_resize 4 (buckets t), mask_m := 3, size_m := 0\<rparr>)"
proof -
  have "has_single_bit 4" using has_single_bit_pow2 [of 2] by simp
  then show ?thesis by (simp add: initialize_def k_min_cap_def)
qed

lemma table_wf_index: "table_wf t \<Longrightarrow> buckets t \<noteq> [] \<Longrightarrow> x AND mask_m t < length (buckets t)"
proof -
  assume wf: "table_wf t" and ne: "buckets t \<noteq> []"
  then obtain k where k: "length (buckets t) = 2 ^ k" "mask_m t = 2 ^ k - 1"
    by (auto simp: table_wf_def)
  have "x AND mask_m t \<le> mask_m t" by (rule and_mask_le)
  also have "mask_m t < length (buckets t)" using k by simp
  finally show ?thesis .
qed

lemma table_wf_capacity:
  "table_wf t \<Longrightarrow> buckets t \<noteq> [] \<Longrightarrow> HTable_capacity t = length (buckets t)"
  by (auto simp: table_wf_def HTable_capacity_def)

lemma HTable_insert_eq:
  assumes "table_wf t"
  shows "HTable_insert t node =
    (if buckets t = [] then
       Inr \<lparr>buckets = (replicate 4 [])[unat (hcode node) AND 3 := [node]], mask_m = 3, size_m = 1\<rparr>
     else
       Inr (t\<lparr>buckets := (buckets t)[unat (hcode node) AND mask_m t :=
                    node # buckets t ! (unat (hcode node) AND mask_m t)],
               size_m := size_m t + 1\<rparr>))"
proof (cases "buckets t = []")
  case True
  have "unat (hcode node) AND 3 \<le> 3" by (rule and_mask_le)
  then have "unat (hcode node) AND 3 < 4" by simp
  with True show ?thesis
    by (simp add: HTable_insert_def initialize_min_cap vector_resize_def Let_def)
next
  case False
  with assms table_wf_index [OF assms False] show ?thesis
    by (simp add: HTable_insert_def Let_def)
qed

lemma HTable_insert_entries:
  assumes "HTable_insert t node = Inr t'"
  shows "mset (entries t') = add_mset node (mset (entries t))"
proof (cases "buckets t = []")
  case True
  have "unat (hcode node) AND 3 \<le> 3" by (rule and_mask_le)
  then have "unat (hcode node) AND 3 < 4" by simp
  with True assms show ?thesis
    by (auto simp: HTable_insert_def initialize_min_cap vector_resize_def Let_def entries_def
        concat_replicate_update split: if_splits)
next
  case False
  with assms show ?thesis
    by (auto simp: HTable_insert_def Let_def entries_def mset_concat_cons split: if_splits)
qed

lemma HTable_insert_wf:
  assumes "table_wf t" "HTable_insert t node = Inr t'"
  shows "table_wf t'" "buckets t' \<noteq> []" "size_m t' = size_m t + 1"
    "buckets t \<noteq> [] \<Longrightarrow> length (buckets t') = length (buckets t) \<and> mask_m t' = mask_m t"
proof -
  have "table_wf \<lparr>buckets = (replicate 4 [])[unat (hcode node) AND 3 := [node]], mask_m = 3, size_m = 1\<rparr>"
    unfolding table_wf_def by (intro disjI2 exI [of _ 2]) simp
  with assms show "table_wf t'"
    by (auto simp: HTable_insert_eq split: if_splits) (auto simp: table_wf_def)
  from assms show "buckets t' \<noteq> []" "size_m t' = size_m t + 1"
    by (auto simp: HTable_insert_eq table_wf_def split: if_splits)
  from assms show "buckets t \<noteq> [] \<Longrightarrow> length (buckets t') = length (buckets t) \<and> mask_m t' = mask_m t"
    by (auto simp: HTable_insert_eq split: if_splits)
qed

lemma HTable_insert_placed:
  assumes "table_wf t" "table_placed t" "HTable_insert t node = Inr t'"
  shows "table_placed t'"
proof (cases "buckets t = []")
  case True
  have "unat (hcode node) AND 3 \<le> 3" by (rule and_mask_le)
  then have lt: "unat (hcode node) AND 3 < 4" by simp
  from True assms have t': "t' = \<lparr>buckets = (replicate 4 [])[unat (hcode node) AND 3 := [node]], mask_m = 3, size_m = 1\<rparr>"
    by (simp add: HTable_insert_eq)
  show ?thesis
    unfolding table_placed_def t' using lt by (auto simp: nth_list_update)
next
  case False
  with assms have t': "t' = t\<lparr>buckets := (buckets t)[unat (hcode node) AND mask_m t :=
                    node # buckets t ! (unat (hcode node) AND mask_m t)],
               size_m := size_m t + 1\<rparr>"
    by (simp add: HTable_insert_eq)
  have "unat (hcode node) AND mask_m t < length (buckets t)"
    by (rule table_wf_index [OF assms(1) False])
  then show ?thesis
    using assms(2) unfolding table_placed_def t' by (auto simp: nth_list_update split: if_splits)
qed

lemma HTable_insert_inv:
  assumes "table_inv t" "HTable_insert t node = Inr t'"
  shows "table_inv t'"
proof -
  from assms have wf: "table_wf t" and pl: "table_placed t" and c: "table_counted t"
    by (simp_all add: table_inv_def)
  have "length (entries t') = Suc (length (entries t))"
    using HTable_insert_entries [OF assms(2)] by (metis size_add_mset size_mset)
  with c HTable_insert_wf(3) [OF wf assms(2)] have "table_counted t'"
    by (simp add: table_counted_def)
  with HTable_insert_wf(1) [OF wf assms(2)] HTable_insert_placed [OF wf pl assms(2)]
  show ?thesis by (simp add: table_inv_def)
qed

lemma HTable_insert_exact:
  assumes "table_wf t" "table_exact t" "HTable_insert t node = Inr t'"
  shows "table_exact t'"
proof -
  have "length (entries t') = Suc (length (entries t))"
    using HTable_insert_entries [OF assms(3)] by (metis size_add_mset size_mset)
  with assms(2) HTable_insert_wf(3) [OF assms(1,3)] show ?thesis
    by (simp add: table_exact_def)
qed

lemma HTable_insert_ok: "table_wf t \<Longrightarrow> \<exists>t'. HTable_insert t node = Inr t'"
  by (simp add: HTable_insert_eq)

subsection \<open>Chain walks\<close>

lemma chain_lookup_None: "chain_lookup c key xs = None \<longleftrightarrow> (\<forall>n\<in>set xs. \<not> c n key)"
  by (induction xs) auto

lemma chain_lookup_Some: "chain_lookup c key xs = Some n \<Longrightarrow> n \<in> set xs \<and> c n key"
  by (induction xs) (auto split: if_splits)

lemma chain_lookup_split:
  "chain_lookup c key xs = Some n \<longleftrightarrow>
     (\<exists>pre post. xs = pre @ n # post \<and> c n key \<and> (\<forall>x\<in>set pre. \<not> c x key))"
proof (induction xs)
  case Nil
  then show ?case by simp
next
  case (Cons a xs)
  show ?case
  proof (cases "c a key")
    case True
    have "(\<exists>pre post. a # xs = pre @ n # post \<and> c n key \<and> (\<forall>x\<in>set pre. \<not> c x key)) \<longleftrightarrow> a = n"
    proof
      assume "\<exists>pre post. a # xs = pre @ n # post \<and> c n key \<and> (\<forall>x\<in>set pre. \<not> c x key)"
      then obtain pre post where p: "a # xs = pre @ n # post" "\<forall>x\<in>set pre. \<not> c x key" by blast
      with True show "a = n" by (cases pre) auto
    next
      assume "a = n"
      with True show "\<exists>pre post. a # xs = pre @ n # post \<and> c n key \<and> (\<forall>x\<in>set pre. \<not> c x key)"
        by (intro exI [of _ "[]"] exI [of _ xs]) simp
    qed
    with True show ?thesis by simp
  next
    case False
    have "(\<exists>pre post. a # xs = pre @ n # post \<and> c n key \<and> (\<forall>x\<in>set pre. \<not> c x key)) \<longleftrightarrow>
          (\<exists>pre post. xs = pre @ n # post \<and> c n key \<and> (\<forall>x\<in>set pre. \<not> c x key))"
    proof
      assume "\<exists>pre post. a # xs = pre @ n # post \<and> c n key \<and> (\<forall>x\<in>set pre. \<not> c x key)"
      then obtain pre post where p: "a # xs = pre @ n # post" "c n key" "\<forall>x\<in>set pre. \<not> c x key"
        by blast
      with False obtain pre' where "pre = a # pre'" by (cases pre) auto
      with p show "\<exists>pre post. xs = pre @ n # post \<and> c n key \<and> (\<forall>x\<in>set pre. \<not> c x key)"
        by auto
    next
      assume "\<exists>pre post. xs = pre @ n # post \<and> c n key \<and> (\<forall>x\<in>set pre. \<not> c x key)"
      then obtain pre post where p: "xs = pre @ n # post" "c n key" "\<forall>x\<in>set pre. \<not> c x key"
        by blast
      with False show "\<exists>pre post. a # xs = pre @ n # post \<and> c n key \<and> (\<forall>x\<in>set pre. \<not> c x key)"
        by (intro exI [of _ "a # pre"] exI [of _ post]) simp
    qed
    with False Cons.IH show ?thesis by simp
  qed
qed

lemma chain_remove_fst: "fst (chain_remove c key xs) = chain_lookup c key xs"
  by (induction xs) (auto split: prod.splits)

lemma chain_remove_None:
  "chain_lookup c key xs = None \<Longrightarrow> chain_remove c key xs = (None, xs)"
  by (induction xs) (auto split: if_splits)

lemma chain_remove_Some:
  "xs = pre @ n # post \<Longrightarrow> c n key \<Longrightarrow> (\<forall>x\<in>set pre. \<not> c x key) \<Longrightarrow>
   chain_remove c key xs = (Some n, pre @ post)"
  by (induction pre arbitrary: xs) auto

lemma chain_remove_mset:
  "chain_remove c key xs = (r, ys) \<Longrightarrow>
   mset xs = mset ys + (case r of None \<Rightarrow> {#} | Some n \<Rightarrow> {#n#})"
  by (induction xs arbitrary: r ys) (auto split: if_splits prod.splits)

lemma chain_remove_set: "chain_remove c key xs = (r, ys) \<Longrightarrow> set ys \<subseteq> set xs"
  using chain_remove_mset [of c key xs r ys] by (metis mset_subset_eqD mset_subset_eq_add_left set_mset_mset subsetI)

subsection \<open>HTable::lookup and HTable::remove\<close>

lemma HTable_lookup_eq:
  assumes "table_wf t"
  shows "HTable_lookup t key c =
    Inr (if buckets t = [] then None
         else chain_lookup c key (buckets t ! (unat (hcode key) AND mask_m t)))"
  using table_wf_index [OF assms] by (simp add: HTable_lookup_def Let_def)

lemma entries_bucket:
  assumes "table_wf t" "table_placed t" "n \<in> set (entries t)"
  shows "buckets t \<noteq> [] \<and> n \<in> set (buckets t ! (unat (hcode n) AND mask_m t))"
proof -
  from assms(3) obtain b where b: "b \<in> set (buckets t)" "n \<in> set b"
    by (auto simp: entries_def)
  then obtain i where i: "i < length (buckets t)" "buckets t ! i = b"
    by (auto simp: in_set_conv_nth)
  with assms(2) b have "unat (hcode n) AND mask_m t = i"
    by (auto simp: table_placed_def)
  with i b show ?thesis by auto
qed

lemma bucket_entries:
  "i < length (buckets t) \<Longrightarrow> n \<in> set (buckets t ! i) \<Longrightarrow> n \<in> set (entries t)"
  by (auto simp: entries_def)

lemma HTable_lookup_None_iff:
  assumes "table_wf t" "table_placed t" "respects_hcode c"
  shows "HTable_lookup t key c = Inr None \<longleftrightarrow> (\<forall>n\<in>set (entries t). \<not> c n key)"
proof
  assume none: "HTable_lookup t key c = Inr None"
  show "\<forall>n\<in>set (entries t). \<not> c n key"
  proof
    fix n assume n: "n \<in> set (entries t)"
    show "\<not> c n key"
    proof
      assume m: "c n key"
      with assms(3) have h: "hcode n = hcode key" by (simp add: respects_hcode_def)
      from entries_bucket [OF assms(1,2) n] h
      have "buckets t \<noteq> []" "n \<in> set (buckets t ! (unat (hcode key) AND mask_m t))" by simp_all
      with none m show False
        by (auto simp: HTable_lookup_eq [OF assms(1)] chain_lookup_None)
    qed
  qed
next
  assume all: "\<forall>n\<in>set (entries t). \<not> c n key"
  show "HTable_lookup t key c = Inr None"
  proof (cases "buckets t = []")
    case True
    then show ?thesis by (simp add: HTable_lookup_def)
  next
    case False
    from table_wf_index [OF assms(1) False] all
    have "\<forall>n\<in>set (buckets t ! (unat (hcode key) AND mask_m t)). \<not> c n key"
      using bucket_entries by blast
    with False show ?thesis
      by (simp add: HTable_lookup_eq [OF assms(1)] chain_lookup_None)
  qed
qed

lemma HTable_lookup_Some:
  assumes "HTable_lookup t key c = Inr (Some n)"
  shows "n \<in> set (entries t) \<and> c n key"
  using assms
  by (auto simp: HTable_lookup_def Let_def split: if_splits dest: chain_lookup_Some bucket_entries)

lemma HTable_remove_eq:
  assumes "table_wf t"
  shows "HTable_remove t key c =
    Inr (if buckets t = [] then (None, t)
         else (fst (chain_remove c key (buckets t ! (unat (hcode key) AND mask_m t))),
               t\<lparr>buckets := (buckets t)[unat (hcode key) AND mask_m t :=
                    snd (chain_remove c key (buckets t ! (unat (hcode key) AND mask_m t)))]\<rparr>))"
  using table_wf_index [OF assms]
  by (simp add: HTable_remove_def Let_def split: prod.splits)

lemma HTable_remove_fields:
  assumes "HTable_remove t key c = Inr (r, t')"
  shows "size_m t' = size_m t" "mask_m t' = mask_m t" "length (buckets t') = length (buckets t)"
  using assms by (auto simp: HTable_remove_def Let_def split: if_splits prod.splits)

lemma HTable_remove_lookup:
  assumes "HTable_remove t key c = Inr (r, t')"
  shows "HTable_lookup t key c = Inr r"
  using assms chain_remove_fst [of c key "buckets t ! (unat (hcode key) AND mask_m t)"]
  by (auto simp: HTable_remove_def HTable_lookup_def Let_def split: if_splits prod.splits)

lemma HTable_remove_entries:
  assumes "HTable_remove t key c = Inr (r, t')"
  shows "mset (entries t) = mset (entries t') + (case r of None \<Rightarrow> {#} | Some n \<Rightarrow> {#n#})"
proof (cases "buckets t = []")
  case True
  with assms show ?thesis by (auto simp: HTable_remove_def)
next
  case False
  define pos where "pos = unat (hcode key) AND mask_m t"
  from assms False have lt: "pos < length (buckets t)"
    by (auto simp: HTable_remove_def Let_def pos_def split: if_splits)
  obtain r' ys where cr: "chain_remove c key (buckets t ! pos) = (r', ys)"
    by (cases "chain_remove c key (buckets t ! pos)")
  with assms False lt have t': "t' = t\<lparr>buckets := (buckets t)[pos := ys]\<rparr>" and r: "r = r'"
    by (auto simp: HTable_remove_def Let_def pos_def)
  from chain_remove_mset [OF cr] mset_concat_update [OF lt, of ys]
  show ?thesis by (simp add: entries_def t' r)
qed

lemma HTable_remove_inv:
  assumes "table_inv t" "HTable_remove t key c = Inr (r, t')"
  shows "table_inv t'"
proof -
  from assms(1) have wf: "table_wf t" and pl: "table_placed t" and cn: "table_counted t"
    by (simp_all add: table_inv_def)
  have wf': "table_wf t'"
    using wf assms(2) by (auto simp: HTable_remove_eq table_wf_def split: if_splits)
  have "size (mset (entries t')) \<le> size (mset (entries t))"
    by (simp add: HTable_remove_entries [OF assms(2)])
  with cn HTable_remove_fields(1) [OF assms(2)] have cn': "table_counted t'"
    by (simp add: table_counted_def)
  have pl': "table_placed t'"
  proof (cases "buckets t = []")
    case True
    with assms(2) pl show ?thesis by (simp add: HTable_remove_def)
  next
    case False
    define pos where "pos = unat (hcode key) AND mask_m t"
    have lt: "pos < length (buckets t)" unfolding pos_def by (rule table_wf_index [OF wf False])
    obtain r' ys where cr: "chain_remove c key (buckets t ! pos) = (r', ys)"
      by (cases "chain_remove c key (buckets t ! pos)")
    with assms(2) False lt have t': "t' = t\<lparr>buckets := (buckets t)[pos := ys]\<rparr>"
      by (auto simp: HTable_remove_def Let_def pos_def)
    from chain_remove_set [OF cr] pl lt show ?thesis
      unfolding table_placed_def t' by (auto simp: nth_list_update split: if_splits)
  qed
  from wf' pl' cn' show ?thesis by (simp add: table_inv_def)
qed

lemma HTable_remove_ok: "table_wf t \<Longrightarrow> \<exists>r t'. HTable_remove t key c = Inr (r, t')"
  by (simp add: HTable_remove_eq)

subsection \<open>The loop of help_resize\<close>

lemma help_resize_loop_induct [consumes 1, case_names stop out_of_range insert_failed move skip]:
  assumes "help_resize_loop w p t pos = Some r"
    and "\<And>w p t pos. \<not> (w < max_work \<and> \<not> HTable_empty t) \<Longrightarrow> P w p t pos (Inr (p, t, pos))"
    and "\<And>w p t pos c. w < max_work \<Longrightarrow> \<not> HTable_empty t \<Longrightarrow>
           c = (if HTable_capacity t \<le> pos then 0 else pos) \<Longrightarrow>
           \<not> c < length (buckets t) \<Longrightarrow> P w p t pos (Inl OutOfRange)"
    and "\<And>w p t pos c node rest e. w < max_work \<Longrightarrow> \<not> HTable_empty t \<Longrightarrow>
           c = (if HTable_capacity t \<le> pos then 0 else pos) \<Longrightarrow>
           c < length (buckets t) \<Longrightarrow> buckets t ! c = node # rest \<Longrightarrow>
           HTable_insert p node = Inl e \<Longrightarrow> P w p t pos (Inl e)"
    and "\<And>w p t pos c node rest p' r. w < max_work \<Longrightarrow> \<not> HTable_empty t \<Longrightarrow>
           c = (if HTable_capacity t \<le> pos then 0 else pos) \<Longrightarrow>
           c < length (buckets t) \<Longrightarrow> buckets t ! c = node # rest \<Longrightarrow>
           HTable_insert p node = Inr p' \<Longrightarrow>
           P (w + 1) p' (t\<lparr>buckets := (buckets t)[c := rest], size_m := size_m t - 1\<rparr>) c r \<Longrightarrow>
           P w p t pos r"
    and "\<And>w p t pos c r. w < max_work \<Longrightarrow> \<not> HTable_empty t \<Longrightarrow>
           c = (if HTable_capacity t \<le> pos then 0 else pos) \<Longrightarrow>
           c < length (buckets t) \<Longrightarrow> buckets t ! c = [] \<Longrightarrow>
           P w p t (c + 1) r \<Longrightarrow> P w p t pos r"
  shows "P w p t pos r"
proof (rule help_resize_loop.raw_induct [OF _ assms(1)], goal_cases)
  case (1 f w p t pos r)
  note IH = "1"(1) and eq = "1"(2)
  show ?case
  proof (cases "w < max_work \<and> \<not> HTable_empty t")
    case False
    with eq assms(2) [of w t p pos] show ?thesis by auto
  next
    case True
    define c where "c = (if HTable_capacity t \<le> pos then 0 else pos)"
    show ?thesis
    proof (cases "c < length (buckets t)")
      case False
      with True eq assms(3) [of w t c pos p] show ?thesis
        by (auto simp: c_def Let_def)
    next
      case lt: True
      show ?thesis
      proof (cases "buckets t ! c")
        case Nil
        with True lt eq have "f w p t (c + 1) = Some r"
          by (auto simp: c_def Let_def)
        then have "P w p t (c + 1) r" by (rule IH)
        with True lt Nil show ?thesis
          by (intro assms(6) [of w t c pos p r]) (auto simp: c_def)
      next
        case (Cons node rest)
        show ?thesis
        proof (cases "HTable_insert p node")
          case (Inl e)
          with True lt Cons eq have "r = Inl e"
            by (auto simp: c_def Let_def)
          with True lt Cons Inl show ?thesis
            using assms(4) [of w t c pos node rest p e] by (auto simp: c_def)
        next
          case (Inr p')
          with True lt Cons eq
          have "f (w + 1) p' (t\<lparr>buckets := (buckets t)[c := rest], size_m := size_m t - 1\<rparr>) c = Some r"
            by (auto simp: c_def Let_def)
          then have "P (w + 1) p' (t\<lparr>buckets := (buckets t)[c := rest], size_m := size_m t - 1\<rparr>) c r"
            by (rule IH)
          with True lt Cons Inr show ?thesis
            by (intro assms(5) [of w t c pos node rest p p' r]) (auto simp: c_def)
        qed
      qed
    qed
  qed
qed

lemma table_wf_cursor:
  assumes "table_wf t" "buckets t \<noteq> []"
  shows "(if HTable_capacity t \<le> pos then 0 else pos) < length (buckets t)"
  using assms table_wf_capacity [OF assms] by (cases "buckets t") auto

lemma table_wf_tail:
  "table_wf t \<Longrightarrow> buckets t \<noteq> [] \<Longrightarrow>
   table_wf (t\<lparr>buckets := (buckets t)[c := rest], size_m := n\<rparr>)"
  by (auto simp: table_wf_def)

lemma entries_tail:
  assumes "c < length (buckets t)" "buckets t ! c = node # rest"
  shows "add_mset node (mset (entries (t\<lparr>buckets := (buckets t)[c := rest], size_m := n\<rparr>)))
         = mset (entries t)"
  using mset_concat_tail [OF assms] by (simp add: entries_def)

lemma length_entries_tail:
  assumes "c < length (buckets t)" "buckets t ! c = node # rest"
  shows "Suc (length (entries (t\<lparr>buckets := (buckets t)[c := rest], size_m := n\<rparr>)))
         = length (entries t)"
  using entries_tail [OF assms, of n] by (metis size_add_mset size_mset)

lemma table_placed_tail:
  assumes "table_placed t" "c < length (buckets t)" "buckets t ! c = node # rest"
  shows "table_placed (t\<lparr>buckets := (buckets t)[c := rest], size_m := n\<rparr>)"
  using assms unfolding table_placed_def
  by (auto simp: nth_list_update split: if_splits)

lemma table_inv_tail:
  assumes "table_inv t" "c < length (buckets t)" "buckets t ! c = node # rest"
  shows "table_inv (t\<lparr>buckets := (buckets t)[c := rest], size_m := size_m t - 1\<rparr>)"
proof -
  from assms(2) have ne: "buckets t \<noteq> []" by auto
  from assms(1) have "table_wf t" "table_placed t" "table_counted t"
    by (simp_all add: table_inv_def)
  with length_entries_tail [OF assms(2,3), of "size_m t - 1"]
    table_wf_tail [OF \<open>table_wf t\<close> ne] table_placed_tail [OF \<open>table_placed t\<close> assms(2,3)]
  show ?thesis by (simp add: table_inv_def table_counted_def)
qed

lemma table_exact_tail:
  assumes "table_exact t" "c < length (buckets t)" "buckets t ! c = node # rest"
  shows "table_exact (t\<lparr>buckets := (buckets t)[c := rest], size_m := size_m t - 1\<rparr>)"
  using assms(1) length_entries_tail [OF assms(2,3), of "size_m t - 1"]
  by (simp add: table_exact_def)

lemma help_resize_loop_no_error:
  assumes "help_resize_loop w p t pos = Some r" "table_wf p" "table_wf t" "buckets t \<noteq> []"
  shows "\<exists>p' t' pos'. r = Inr (p', t', pos')"
  using assms
proof (induction rule: help_resize_loop_induct)
  case (stop w p t pos)
  then show ?case by simp
next
  case (out_of_range w p t pos c)
  with table_wf_cursor [of t pos] show ?case by simp
next
  case (insert_failed w p t pos c node rest e)
  with HTable_insert_ok [of p node] show ?case by simp
next
  case (move w p t pos c node rest p' r)
  from move.prems move.hyps(6) have "table_wf p'" by (simp add: HTable_insert_wf(1))
  moreover have "table_wf (t\<lparr>buckets := (buckets t)[c := rest], size_m := size_m t - 1\<rparr>)"
    using move.prems by (simp add: table_wf_tail)
  ultimately show ?case using move.IH move.prems by simp
next
  case (skip w p t pos c r)
  then show ?case by simp
qed

lemma help_resize_loop_inv:
  assumes "help_resize_loop w p t pos = Some (Inr (p', t', pos'))" "table_inv p" "table_inv t"
  shows "table_inv p' \<and> table_inv t' \<and> length (buckets t') = length (buckets t) \<and>
         mask_m t' = mask_m t"
  using assms
proof (induction w p t pos "Inr (p', t', pos') :: error + 'a HTable \<times> 'a HTable \<times> nat"
    rule: help_resize_loop_induct)
  case stop
  then show ?case by simp
next
  case (move w p t pos c node rest p1)
  have "table_inv p1" using move.prems(1) move.hyps(6) by (rule HTable_insert_inv)
  moreover have "table_inv (t\<lparr>buckets := (buckets t)[c := rest], size_m := size_m t - 1\<rparr>)"
    using move.prems(2) move.hyps(4,5) by (rule table_inv_tail)
  ultimately show ?case using move.hyps(7) by simp
next
  case (skip w p t pos c)
  then show ?case by simp
qed

lemma help_resize_loop_exact:
  assumes "help_resize_loop w p t pos = Some (Inr (p', t', pos'))"
    "table_wf p" "table_exact p" "table_exact t"
  shows "table_exact p' \<and> table_exact t'"
  using assms
proof (induction w p t pos "Inr (p', t', pos') :: error + 'a HTable \<times> 'a HTable \<times> nat"
    rule: help_resize_loop_induct)
  case stop
  then show ?case by simp
next
  case (move w p t pos c node rest p1)
  have "table_exact p1" using move.prems(1,2) move.hyps(6) by (rule HTable_insert_exact)
  moreover have "table_wf p1" using move.prems(1) move.hyps(6) by (rule HTable_insert_wf(1))
  moreover have "table_exact (t\<lparr>buckets := (buckets t)[c := rest], size_m := size_m t - 1\<rparr>)"
    using move.prems(3) move.hyps(4,5) by (rule table_exact_tail)
  ultimately show ?case using move.hyps(7) by simp
next
  case (skip w p t pos c)
  then show ?case by simp
qed

lemma help_resize_loop_moved:
  assumes "help_resize_loop w p t pos = Some (Inr (p', t', pos'))"
  shows "\<exists>moved. mset (entries p') = mset (entries p) + moved \<and>
                 mset (entries t) = mset (entries t') + moved \<and>
                 (w \<le> max_work \<longrightarrow> size moved \<le> max_work - w)"
  using assms
proof (induction w p t pos "Inr (p', t', pos') :: error + 'a HTable \<times> 'a HTable \<times> nat"
    rule: help_resize_loop_induct)
  case stop
  then show ?case by simp
next
  case (move w p t pos c node rest p1)
  let ?t1 = "t\<lparr>buckets := (buckets t)[c := rest], size_m := size_m t - 1\<rparr>"
  from move.hyps(7) obtain moved where m:
    "mset (entries p') = mset (entries p1) + moved"
    "mset (entries ?t1) = mset (entries t') + moved"
    "w + 1 \<le> max_work \<longrightarrow> size moved \<le> max_work - (w + 1)"
    by blast
  have p1: "mset (entries p1) = add_mset node (mset (entries p))"
    using move.hyps(6) by (rule HTable_insert_entries)
  have t1: "add_mset node (mset (entries ?t1)) = mset (entries t)"
    using move.hyps(4,5) by (rule entries_tail)
  show ?case
  proof (intro exI [of _ "add_mset node moved"] conjI impI)
    show "mset (entries p') = mset (entries p) + add_mset node moved"
      by (simp add: m(1) p1)
    show "mset (entries t) = mset (entries t') + add_mset node moved"
      using t1 m(2) by simp
    show "size (add_mset node moved) \<le> max_work - w"
      using m(3) move.hyps(1) by simp
  qed
next
  case (skip w p t pos c)
  then show ?case by simp
qed

lemma help_resize_loop_sizes:
  assumes "help_resize_loop w p t pos = Some (Inr (p', t', pos'))" "table_wf p"
  shows "size_m p' + size_m t' = size_m p + size_m t"
  using assms
proof (induction w p t pos "Inr (p', t', pos') :: error + 'a HTable \<times> 'a HTable \<times> nat"
    rule: help_resize_loop_induct)
  case stop
  then show ?case by simp
next
  case (move w p t pos c node rest p1)
  from move.prems move.hyps(6) have "table_wf p1" "size_m p1 = size_m p + 1"
    by (simp_all add: HTable_insert_wf)
  with move.hyps(7) move.hyps(2) show ?case by (simp add: HTable_empty_def)
next
  case (skip w p t pos c)
  then show ?case by simp
qed

lemma help_resize_loop_tmp_size:
  assumes "help_resize_loop w p t pos = Some (Inr (p', t', pos'))"
  shows "size_m t' \<le> size_m t"
  using assms
proof (induction w p t pos "Inr (p', t', pos') :: error + 'a HTable \<times> 'a HTable \<times> nat"
    rule: help_resize_loop_induct)
  case stop
  then show ?case by simp
next
  case (move w p t pos c node rest p1)
  then show ?case by simp
next
  case (skip w p t pos c)
  then show ?case by simp
qed

subsection \<open>When the loop of help_resize ends\<close>

lemma help_resize_loop_stop:
  "\<not> (w < max_work \<and> \<not> HTable_empty t) \<Longrightarrow>
   help_resize_loop w p t pos = Some (Inr (p, t, pos))"
  by (subst help_resize_loop.simps) auto

lemma help_resize_loop_skip:
  assumes "w < max_work" "\<not> HTable_empty t" "pos < length (buckets t)"
    "HTable_capacity t = length (buckets t)" "buckets t ! pos = []"
  shows "help_resize_loop w p t pos = help_resize_loop w p t (pos + 1)"
  using assms by (subst help_resize_loop.simps) (simp add: Let_def)

lemma help_resize_loop_wrap:
  assumes "w < max_work" "\<not> HTable_empty t" "HTable_capacity t \<le> pos"
  shows "help_resize_loop w p t pos = help_resize_loop w p t 0"
proof -
  have "\<not> HTable_capacity t \<le> 0" by (simp add: HTable_capacity_def)
  with assms show ?thesis
    by (simp add: help_resize_loop.simps [of w p t pos] help_resize_loop.simps [of w p t 0])
qed

lemma help_resize_loop_move:
  assumes "w < max_work" "\<not> HTable_empty t" "pos < length (buckets t)"
    "HTable_capacity t = length (buckets t)" "buckets t ! pos = node # rest"
    "HTable_insert p node = Inr p'"
  shows "help_resize_loop w p t pos =
         help_resize_loop (w + 1) p' (t\<lparr>buckets := (buckets t)[pos := rest], size_m := size_m t - 1\<rparr>) pos"
  using assms by (subst help_resize_loop.simps) (simp add: Let_def)

lemma help_resize_loop_skip_to:
  assumes "w < max_work" "\<not> HTable_empty t" "HTable_capacity t = length (buckets t)"
    "pos \<le> j" "j \<le> length (buckets t)" "\<forall>i. pos \<le> i \<and> i < j \<longrightarrow> buckets t ! i = []"
  shows "help_resize_loop w p t pos = help_resize_loop w p t j"
  using assms(4,6)
proof (induction "j - pos" arbitrary: pos)
  case 0
  then show ?case by simp
next
  case (Suc d)
  then have lt: "pos < j" by simp
  with assms(5) Suc.prems have "pos < length (buckets t)" "buckets t ! pos = []" by auto
  then have "help_resize_loop w p t pos = help_resize_loop w p t (pos + 1)"
    using assms(1-3) by (intro help_resize_loop_skip) auto
  also have "\<dots> = help_resize_loop w p t j"
    using Suc lt by (intro Suc.hyps(1)) auto
  finally show ?case .
qed

lemma help_resize_loop_find_bucket:
  assumes "w < max_work" "\<not> HTable_empty t" "HTable_capacity t = length (buckets t)"
    "entries t \<noteq> []"
  shows "\<exists>j<length (buckets t). buckets t ! j \<noteq> [] \<and>
           help_resize_loop w p t pos = help_resize_loop w p t j"
proof -
  let ?n = "length (buckets t)"
  have from_start: "\<exists>j<?n. buckets t ! j \<noteq> [] \<and> help_resize_loop w p t 0 = help_resize_loop w p t j"
  proof -
    from assms(4) obtain b where "b \<in> set (buckets t)" "b \<noteq> []"
      by (auto simp: entries_def)
    then have ex: "\<exists>j. j < ?n \<and> buckets t ! j \<noteq> []" by (auto simp: in_set_conv_nth)
    define j where "j = (LEAST j. j < ?n \<and> buckets t ! j \<noteq> [])"
    have j: "j < ?n \<and> buckets t ! j \<noteq> []" unfolding j_def by (rule LeastI_ex [OF ex])
    have "\<forall>i. 0 \<le> i \<and> i < j \<longrightarrow> buckets t ! i = []"
    proof (intro allI impI)
      fix i assume i: "0 \<le> i \<and> i < j"
      with j have "i < ?n" by simp
      moreover from i have "\<not> (i < ?n \<and> buckets t ! i \<noteq> [])"
        unfolding j_def using not_less_Least by blast
      ultimately show "buckets t ! i = []" by simp
    qed
    with j assms(1-3) have "help_resize_loop w p t 0 = help_resize_loop w p t j"
      by (intro help_resize_loop_skip_to) auto
    with j show ?thesis by blast
  qed
  show ?thesis
  proof (cases "\<exists>j. pos \<le> j \<and> j < ?n \<and> buckets t ! j \<noteq> []")
    case True
    define j where "j = (LEAST j. pos \<le> j \<and> j < ?n \<and> buckets t ! j \<noteq> [])"
    have j: "pos \<le> j \<and> j < ?n \<and> buckets t ! j \<noteq> []" unfolding j_def by (rule LeastI_ex [OF True])
    have "\<forall>i. pos \<le> i \<and> i < j \<longrightarrow> buckets t ! i = []"
    proof (intro allI impI)
      fix i assume i: "pos \<le> i \<and> i < j"
      with j have "i < ?n" by simp
      moreover from i have "\<not> (pos \<le> i \<and> i < ?n \<and> buckets t ! i \<noteq> [])"
        unfolding j_def using not_less_Least by blast
      ultimately show "buckets t ! i = []" using i by simp
    qed
    with j assms(1-3) have "help_resize_loop w p t pos = help_resize_loop w p t j"
      by (intro help_resize_loop_skip_to) auto
    with j show ?thesis by blast
  next
    case False
    have "help_resize_loop w p t pos = help_resize_loop w p t 0"
    proof (cases "?n \<le> pos")
      case True
      with assms(1-3) show ?thesis by (intro help_resize_loop_wrap) simp_all
    next
      case lt: False
      from False have "\<forall>i. pos \<le> i \<and> i < ?n \<longrightarrow> buckets t ! i = []" by auto
      with lt assms(1-3) have "help_resize_loop w p t pos = help_resize_loop w p t ?n"
        by (intro help_resize_loop_skip_to) auto
      also have "\<dots> = help_resize_loop w p t 0"
        using assms(1-3) by (intro help_resize_loop_wrap) simp_all
      finally show ?thesis .
    qed
    with from_start show ?thesis by simp
  qed
qed

lemma help_resize_loop_returns:
  assumes "table_wf p" "table_wf t" "buckets t \<noteq> []"
    "size_m t \<le> length (entries t) \<or> max_work \<le> w + length (entries t)"
  shows "\<exists>p' t' pos'. help_resize_loop w p t pos = Some (Inr (p', t', pos'))"
  using assms
proof (induction "max_work - w" arbitrary: w p t pos)
  case 0
  then have "\<not> w < max_work" by simp
  then show ?case by (simp add: help_resize_loop_stop)
next
  case (Suc n)
  show ?case
  proof (cases "HTable_empty t")
    case True
    then show ?thesis by (simp add: help_resize_loop_stop)
  next
    case ne: False
    from Suc.hyps(2) have lt: "w < max_work" by simp
    have cap: "HTable_capacity t = length (buckets t)"
      using Suc.prems(2,3) by (rule table_wf_capacity)
    from ne lt Suc.prems(4) have "entries t \<noteq> []" by (auto simp: HTable_empty_def)
    from help_resize_loop_find_bucket [OF lt ne cap this, of p pos]
    obtain j where j: "j < length (buckets t)" "buckets t ! j \<noteq> []"
      "help_resize_loop w p t pos = help_resize_loop w p t j" by blast
    then obtain node rest where b: "buckets t ! j = node # rest" by (cases "buckets t ! j") auto
    obtain p1 where p1: "HTable_insert p node = Inr p1"
      using HTable_insert_ok [OF Suc.prems(1)] by blast
    let ?t1 = "t\<lparr>buckets := (buckets t)[j := rest], size_m := size_m t - 1\<rparr>"
    have step: "help_resize_loop w p t j = help_resize_loop (w + 1) p1 ?t1 j"
      using lt ne j(1) cap b p1 by (rule help_resize_loop_move)
    have len: "Suc (length (entries ?t1)) = length (entries t)"
      using j(1) b by (rule length_entries_tail)
    have "\<exists>p' t' pos'. help_resize_loop (w + 1) p1 ?t1 j = Some (Inr (p', t', pos'))"
    proof (rule Suc.hyps(1))
      show "n = max_work - (w + 1)" using Suc.hyps(2) by simp
      show "table_wf p1" using Suc.prems(1) p1 by (rule HTable_insert_wf(1))
      show "table_wf ?t1" using Suc.prems(2,3) by (rule table_wf_tail)
      show "buckets ?t1 \<noteq> []" using Suc.prems(3) by simp
      show "size_m ?t1 \<le> length (entries ?t1) \<or> max_work \<le> w + 1 + length (entries ?t1)"
        using Suc.prems(4) len by auto
    qed
    with j(3) step show ?thesis by simp
  qed
qed

lemma help_resize_loop_terminates:
  assumes "table_wf p" "table_wf t" "buckets t \<noteq> []" "table_exact t"
  shows "\<exists>p' t' pos'. help_resize_loop w p t pos = Some (Inr (p', t', pos'))"
  using assms(4) by (intro help_resize_loop_returns [OF assms(1-3)]) (simp add: table_exact_def)

text \<open>
  When the size counter of the temporary table exceeds the number of its nodes, and fewer
  than max_work nodes are left, the loop moves them all and then steps through empty buckets
  for ever.
\<close>

lemma help_resize_loop_diverges:
  assumes "table_wf p" "table_wf t" "buckets t \<noteq> []"
    "length (entries t) < size_m t" "w + length (entries t) < max_work"
  shows "help_resize_loop w p t pos = None"
proof (rule ccontr)
  assume "help_resize_loop w p t pos \<noteq> None"
  then obtain r where "help_resize_loop w p t pos = Some r" by auto
  then show False using assms
  proof (induction rule: help_resize_loop_induct)
    case (stop w p t pos)
    then show ?case by (auto simp: HTable_empty_def)
  next
    case (out_of_range w p t pos c)
    with table_wf_cursor [of t pos] show ?case by simp
  next
    case (insert_failed w p t pos c node rest e)
    with HTable_insert_ok [of p node] show ?case by simp
  next
    case (move w p t pos c node rest p' r)
    let ?t1 = "t\<lparr>buckets := (buckets t)[c := rest], size_m := size_m t - 1\<rparr>"
    have len: "Suc (length (entries ?t1)) = length (entries t)"
      using move.hyps(4,5) by (rule length_entries_tail)
    show ?case
    proof (rule move.IH)
      show "table_wf p'" using move.prems(1) move.hyps(6) by (rule HTable_insert_wf(1))
      show "table_wf ?t1" using move.prems(2,3) by (rule table_wf_tail)
      show "buckets ?t1 \<noteq> []" using move.prems(3) by simp
      show "length (entries ?t1) < size_m ?t1" using len move.prems(4) by simp
      show "w + 1 + length (entries ?t1) < max_work" using len move.prems(5) by simp
    qed
  next
    case (skip w p t pos c r)
    then show ?case by simp
  qed
qed

text \<open>The loop of help_resize runs for ever in exactly these states.\<close>

lemma help_resize_loop_None_iff:
  assumes "table_wf p" "table_wf t" "buckets t \<noteq> []"
  shows "help_resize_loop w p t pos = None \<longleftrightarrow>
           length (entries t) < size_m t \<and> w + length (entries t) < max_work"
proof
  assume none: "help_resize_loop w p t pos = None"
  show "length (entries t) < size_m t \<and> w + length (entries t) < max_work"
  proof (rule ccontr)
    assume "\<not> (length (entries t) < size_m t \<and> w + length (entries t) < max_work)"
    then have "size_m t \<le> length (entries t) \<or> max_work \<le> w + length (entries t)" by auto
    from help_resize_loop_returns [OF assms this, of pos] none show False by simp
  qed
next
  assume "length (entries t) < size_m t \<and> w + length (entries t) < max_work"
  with assms show "help_resize_loop w p t pos = None"
    by (intro help_resize_loop_diverges) simp_all
qed

subsection \<open>help_resize\<close>


lemma help_resize_slice:
  assumes "temporary_table m = Some t"
    "help_resize_loop 0 (primary_table m) t (resizing_pos m) = Some (Inr (p', t', pos'))"
  shows "help_resize m =
    Some (Inr (if HTable_empty t'
               then \<lparr>primary_table = p', temporary_table = None, resizing_pos = 0\<rparr>
               else \<lparr>primary_table = p', temporary_table = Some t', resizing_pos = pos'\<rparr>))"
  using assms by (simp add: help_resize_def)

lemma help_resize_cases [consumes 1, case_names stable slice]:
  assumes "help_resize m = Some (Inr m')"
  obtains "temporary_table m = None" "m' = m"
  | t p' t' pos' where "temporary_table m = Some t"
      "help_resize_loop 0 (primary_table m) t (resizing_pos m) = Some (Inr (p', t', pos'))"
      "m' = (if HTable_empty t'
             then \<lparr>primary_table = p', temporary_table = None, resizing_pos = 0\<rparr>
             else \<lparr>primary_table = p', temporary_table = Some t', resizing_pos = pos'\<rparr>)"
proof (cases "temporary_table m")
  case None
  with assms have "m' = m" by (simp add: help_resize_def)
  with None show ?thesis by (rule that(1))
next
  case (Some t)
  with assms obtain p' t' pos' where
    l: "help_resize_loop 0 (primary_table m) t (resizing_pos m) = Some (Inr (p', t', pos'))"
    by (auto simp: help_resize_def split: option.splits sum.splits)
  with assms Some have "m' = (if HTable_empty t'
             then \<lparr>primary_table = p', temporary_table = None, resizing_pos = 0\<rparr>
             else \<lparr>primary_table = p', temporary_table = Some t', resizing_pos = pos'\<rparr>)"
    by (simp add: help_resize_def split: if_splits)
  with Some l show ?thesis by (rule that(2))
qed

lemma help_resize_no_error:
  assumes "hmap_inv m" "help_resize m = Some r"
  shows "\<exists>m'. r = Inr m'"
proof (cases "temporary_table m")
  case None
  with assms show ?thesis by (auto simp: help_resize_def)
next
  case (Some t)
  with assms(1) have wf: "table_wf (primary_table m)" "table_wf t" "buckets t \<noteq> []"
    by (simp_all add: hmap_inv_def table_inv_def)
  from assms(2) Some obtain r' where
    l: "help_resize_loop 0 (primary_table m) t (resizing_pos m) = Some r'"
    by (auto simp: help_resize_def split: option.splits)
  from help_resize_loop_no_error [OF l wf] obtain p' t' pos' where "r' = Inr (p', t', pos')"
    by blast
  with assms(2) Some l show ?thesis
    by (auto simp: help_resize_def split: if_splits)
qed

lemma help_resize_inv:
  assumes "hmap_inv m" "help_resize m = Some (Inr m')"
  shows "hmap_inv m'"
  using assms(2)
proof (cases rule: help_resize_cases)
  case stable
  with assms(1) show ?thesis by simp
next
  case (slice t p' t' pos')
  with assms(1) have "table_inv (primary_table m)" "table_inv t" "buckets t \<noteq> []"
    by (simp_all add: hmap_inv_def)
  with help_resize_loop_inv [OF slice(2)]
  have "table_inv p'" "table_inv t'" "buckets t' \<noteq> []" by auto
  with slice(3) show ?thesis by (simp add: hmap_inv_def)
qed

lemma help_resize_exact:
  assumes "hmap_inv m" "hmap_exact m" "help_resize m = Some (Inr m')"
  shows "hmap_exact m'"
  using assms(3)
proof (cases rule: help_resize_cases)
  case stable
  with assms(2) show ?thesis by simp
next
  case (slice t p' t' pos')
  with assms(1,2) have "table_wf (primary_table m)" "table_exact (primary_table m)" "table_exact t"
    by (simp_all add: hmap_inv_def hmap_exact_def table_inv_def)
  with help_resize_loop_exact [OF slice(2)]
  have "table_exact p'" "table_exact t'" by auto
  with slice(3) show ?thesis by (simp add: hmap_exact_def)
qed

lemma help_resize_terminates:
  assumes "hmap_inv m" "hmap_exact m"
  shows "\<exists>m'. help_resize m = Some (Inr m')"
proof (cases "temporary_table m")
  case None
  then show ?thesis by (simp add: help_resize_def)
next
  case (Some t)
  with assms have "table_wf (primary_table m)" "table_wf t" "buckets t \<noteq> []" "table_exact t"
    by (simp_all add: hmap_inv_def hmap_exact_def table_inv_def)
  from help_resize_loop_terminates [OF this, of 0 "resizing_pos m"]
  obtain p' t' pos' where
    "help_resize_loop 0 (primary_table m) t (resizing_pos m) = Some (Inr (p', t', pos'))"
    by blast
  from help_resize_slice [OF Some this] show ?thesis by blast
qed

lemma table_counted_empty:
  "table_counted t \<Longrightarrow> HTable_empty t \<Longrightarrow> entries t = []"
  by (simp add: table_counted_def HTable_empty_def)

lemma help_resize_entries:
  assumes "hmap_inv m" "help_resize m = Some (Inr m')"
  shows "all_entries m' = all_entries m"
  using assms(2)
proof (cases rule: help_resize_cases)
  case stable
  then show ?thesis by simp
next
  case (slice t p' t' pos')
  with assms(1) have "table_inv (primary_table m)" "table_inv t"
    by (simp_all add: hmap_inv_def)
  with help_resize_loop_inv [OF slice(2)] have c: "table_counted t'"
    by (simp add: table_inv_def)
  from help_resize_loop_moved [OF slice(2)]
  have eq: "mset (entries p') + mset (entries t') =
            mset (entries (primary_table m)) + mset (entries t)"
    by auto
  show ?thesis
  proof (cases "HTable_empty t'")
    case True
    with c have "entries t' = []" by (rule table_counted_empty)
    with eq slice(1,3) True show ?thesis by (simp add: all_entries_def)
  next
    case False
    with eq slice(1,3) show ?thesis by (simp add: all_entries_def)
  qed
qed

lemma help_resize_size:
  assumes "hmap_inv m" "help_resize m = Some (Inr m')"
  shows "HMap_size m' = HMap_size m"
  using assms(2)
proof (cases rule: help_resize_cases)
  case stable
  then show ?thesis by simp
next
  case (slice t p' t' pos')
  with assms(1) have "table_wf (primary_table m)"
    by (simp add: hmap_inv_def table_inv_def)
  from help_resize_loop_sizes [OF slice(2) this] slice(1,3) show ?thesis
    by (auto simp: HMap_size_def HTable_size_def HTable_empty_def)
qed

lemma help_resize_moved:
  assumes "help_resize m = Some (Inr m')"
  shows "\<exists>moved. size moved \<le> max_work \<and>
           mset (entries (primary_table m')) = mset (entries (primary_table m)) + moved \<and>
           (case temporary_table m of None \<Rightarrow> moved = {#}
            | Some t \<Rightarrow> moved \<subseteq># mset (entries t))"
  using assms
proof (cases rule: help_resize_cases)
  case stable
  then show ?thesis by simp
next
  case (slice t p' t' pos')
  from help_resize_loop_moved [OF slice(2)] obtain moved where
    m: "mset (entries p') = mset (entries (primary_table m)) + moved"
       "mset (entries t) = mset (entries t') + moved" "size moved \<le> max_work"
    by auto
  from m(2) have "moved \<subseteq># mset (entries t)" by simp
  with m(1,3) slice(1,3) show ?thesis by auto
qed

lemma help_resize_tmp:
  assumes "help_resize m = Some (Inr m')" "temporary_table m' = Some t'"
  shows "\<exists>t. temporary_table m = Some t \<and> size_m t' \<le> size_m t \<and>
             mset (entries t') \<subseteq># mset (entries t)"
  using assms(1)
proof (cases rule: help_resize_cases)
  case stable
  with assms(2) show ?thesis by simp
next
  case (slice t p1 t1 pos1)
  with assms(2) have t1: "t1 = t'" by (simp split: if_splits)
  from help_resize_loop_moved [OF slice(2)] have "mset (entries t1) \<subseteq># mset (entries t)"
    by auto
  with help_resize_loop_tmp_size [OF slice(2)] slice(1) t1 show ?thesis by simp
qed

subsection \<open>start_resize\<close>

lemma start_resize_eq:
  assumes "temporary_table m = None"
  shows "\<exists>k\<ge>2. start_resize m =
           Inr \<lparr>primary_table = \<lparr>buckets = replicate (2 ^ k) [], mask_m = 2 ^ k - 1, size_m = 0\<rparr>,
                temporary_table = Some (primary_table m), resizing_pos = 0\<rparr>"
proof -
  have "0 < HTable_capacity (primary_table m) * 2" by (simp add: HTable_capacity_def)
  from HTable_ctor_pos [OF this] obtain k where k: "2 \<le> k"
    "HTable_ctor (HTable_capacity (primary_table m) * 2) =
       Inr (\<lparr>buckets = replicate (2 ^ k) [], mask_m = 2 ^ k - 1, size_m = 0\<rparr> :: 'a HTable)"
    by blast
  with assms show ?thesis by (auto simp: start_resize_def Let_def)
qed

lemma fresh_table_inv:
  "2 \<le> k \<Longrightarrow> table_inv \<lparr>buckets = replicate (2 ^ k) [], mask_m = 2 ^ k - 1, size_m = 0\<rparr>"
  by (auto simp: table_inv_def table_wf_def table_placed_def table_counted_def entries_def
      concat_replicate_Nil)

lemma fresh_table_exact:
  "table_exact \<lparr>buckets = replicate n [], mask_m = a, size_m = 0\<rparr>"
  by (simp add: table_exact_def entries_def concat_replicate_Nil)

lemma fresh_table_entries: "entries \<lparr>buckets = replicate n [], mask_m = a, size_m = b\<rparr> = []"
  by (simp add: entries_def concat_replicate_Nil)

lemma start_resize_props:
  assumes "hmap_inv m" "temporary_table m = None" "buckets (primary_table m) \<noteq> []"
    "start_resize m = Inr m1"
  shows "hmap_inv m1" "all_entries m1 = all_entries m" "HMap_size m1 = HMap_size m"
    "temporary_table m1 = Some (primary_table m)" "entries (primary_table m1) = []"
    "hmap_exact m \<Longrightarrow> hmap_exact m1"
proof -
  from start_resize_eq [OF assms(2)] assms(4) obtain k where k: "2 \<le> k"
    "m1 = \<lparr>primary_table = \<lparr>buckets = replicate (2 ^ k) [], mask_m = 2 ^ k - 1, size_m = 0\<rparr>,
           temporary_table = Some (primary_table m), resizing_pos = 0\<rparr>"
    by auto
  from assms(1,3) fresh_table_inv [OF k(1)] show "hmap_inv m1"
    by (simp add: k(2) hmap_inv_def)
  from assms(2) show "all_entries m1 = all_entries m"
    by (simp add: k(2) all_entries_def fresh_table_entries)
  from assms(2) show "HMap_size m1 = HMap_size m"
    by (simp add: k(2) HMap_size_def HTable_size_def)
  show "temporary_table m1 = Some (primary_table m)" by (simp add: k(2))
  show "entries (primary_table m1) = []" by (simp add: k(2) fresh_table_entries)
  show "hmap_exact m \<Longrightarrow> hmap_exact m1"
    by (simp add: k(2) hmap_exact_def fresh_table_exact)
qed

subsection \<open>HMap::insert\<close>

lemma HTable_ctor_min_cap:
  "HTable_ctor k_min_cap = Inr \<lparr>buckets = replicate 4 [], mask_m = 3, size_m = 0\<rparr>"
  using HTable_ctor_pow2 [of 2] by (simp add: k_min_cap_def)

lemma HMap_insert_unfold:
  "HMap_insert m node =
     (case HTable_insert (if HTable_empty (primary_table m)
                          then \<lparr>buckets = replicate 4 [], mask_m = 3, size_m = 0\<rparr>
                          else primary_table m) node of
        Inl e \<Rightarrow> Some (Inl e)
      | Inr p1 \<Rightarrow>
          if temporary_table m = None \<and> k_max_load_factor \<le> HTable_size p1 div HTable_capacity p1
          then (case start_resize (m\<lparr>primary_table := p1\<rparr>) of
                  Inl e \<Rightarrow> Some (Inl e)
                | Inr m2 \<Rightarrow> help_resize m2)
          else help_resize (m\<lparr>primary_table := p1\<rparr>))"
  by (simp add: HMap_insert_def HTable_ctor_min_cap Let_def split: sum.splits)

lemma fresh4_inv: "table_inv \<lparr>buckets = replicate 4 [], mask_m = 3, size_m = 0\<rparr>"
  using fresh_table_inv [of 2] by simp

lemma HMap_insert_before_slice:
  assumes "HMap_insert m node = Some (Inr m')"
  shows "\<exists>m1. help_resize m1 = Some (Inr m') \<and>
           mset (entries (primary_table m1)) \<subseteq># add_mset node (mset (entries (primary_table m))) \<and>
           (\<forall>t. temporary_table m = Some t \<longrightarrow>
                temporary_table m1 = Some t \<and> node \<in># mset (entries (primary_table m1))) \<and>
           ((temporary_table m1 = temporary_table m \<and>
             mset (entries (primary_table m1))
               \<subseteq># add_mset node (mset (entries (primary_table m)))) \<or>
            (temporary_table m = None \<and> entries (primary_table m1) = [] \<and>
             tmp_entries m1 \<subseteq># add_mset node (mset (entries (primary_table m)))))"
proof -
  let ?p0 = "if HTable_empty (primary_table m)
             then \<lparr>buckets = replicate 4 [], mask_m = 3, size_m = 0\<rparr> else primary_table m"
  from assms obtain p1 where p1: "HTable_insert ?p0 node = Inr p1"
    by (cases "HTable_insert ?p0 node") (simp_all add: HMap_insert_unfold)
  have "mset (entries ?p0) \<subseteq># mset (entries (primary_table m))"
    by (simp add: fresh_table_entries)
  then have sub: "mset (entries p1) \<subseteq># add_mset node (mset (entries (primary_table m)))"
    unfolding HTable_insert_entries [OF p1] by simp
  have mem: "node \<in># mset (entries p1)"
    using HTable_insert_entries [OF p1] by simp
  show ?thesis
  proof (cases "temporary_table m = None \<and>
      k_max_load_factor \<le> HTable_size p1 div HTable_capacity p1")
    case True
    then have "temporary_table (m\<lparr>primary_table := p1\<rparr>) = None" by simp
    from start_resize_eq [OF this] obtain k where
      s: "start_resize (m\<lparr>primary_table := p1\<rparr>) =
           Inr \<lparr>primary_table = \<lparr>buckets = replicate (2 ^ k) [], mask_m = 2 ^ k - 1, size_m = 0\<rparr>,
                temporary_table = Some p1, resizing_pos = 0\<rparr>"
      by auto
    let ?m1 = "\<lparr>primary_table = \<lparr>buckets = replicate (2 ^ k) [], mask_m = 2 ^ k - 1, size_m = 0\<rparr>,
                temporary_table = Some p1, resizing_pos = 0\<rparr>"
    from assms p1 True s have "help_resize ?m1 = Some (Inr m')"
      by (simp add: HMap_insert_unfold)
    with True sub show ?thesis
      by (intro exI [of _ ?m1]) (simp add: fresh_table_entries tmp_entries_def)
  next
    case False
    with assms p1 have "help_resize (m\<lparr>primary_table := p1\<rparr>) = Some (Inr m')"
      by (simp add: HMap_insert_unfold)
    with sub mem show ?thesis
      by (intro exI [of _ "m\<lparr>primary_table := p1\<rparr>"]) simp
  qed
qed

lemma HMap_insert_slice:
  assumes "hmap_inv m"
  shows "\<exists>m1. HMap_insert m node = help_resize m1 \<and> hmap_inv m1 \<and>
           all_entries m1 = add_mset node (all_entries m) \<and>
           HMap_size m1 = HMap_size m + 1 \<and>
           (hmap_exact m \<longrightarrow> hmap_exact m1) \<and>
           (buckets (primary_table m1) \<noteq> [])"
proof -
  let ?p0 = "if HTable_empty (primary_table m)
             then \<lparr>buckets = replicate 4 [], mask_m = 3, size_m = 0\<rparr> else primary_table m"
  from assms have pinv: "table_inv (primary_table m)" by (simp add: hmap_inv_def)
  then have p0: "table_inv ?p0" by (simp add: fresh4_inv)
  then have wf0: "table_wf ?p0" by (simp add: table_inv_def)
  have e0: "entries ?p0 = entries (primary_table m)"
    using pinv by (simp add: fresh_table_entries table_counted_empty table_inv_def)
  have s0: "size_m ?p0 = size_m (primary_table m)"
    by (simp add: HTable_empty_def)
  have x0: "table_exact (primary_table m) \<Longrightarrow> table_exact ?p0"
    by (simp add: fresh_table_exact)
  obtain p1 where p1: "HTable_insert ?p0 node = Inr p1"
    using HTable_insert_ok [OF wf0] by blast
  have p1inv: "table_inv p1" using p0 p1 by (rule HTable_insert_inv)
  have p1ne: "buckets p1 \<noteq> []" and p1s: "size_m p1 = size_m (primary_table m) + 1"
    using HTable_insert_wf(2,3) [OF wf0 p1] s0 by simp_all
  have p1e: "mset (entries p1) = add_mset node (mset (entries (primary_table m)))"
    using HTable_insert_entries [OF p1] e0 by simp
  have p1x: "table_exact (primary_table m) \<Longrightarrow> table_exact p1"
    using HTable_insert_exact [OF wf0 _ p1] x0 by simp
  let ?m0 = "m\<lparr>primary_table := p1\<rparr>"
  have m0: "hmap_inv ?m0" "all_entries ?m0 = add_mset node (all_entries m)"
    "HMap_size ?m0 = HMap_size m + 1" "hmap_exact m \<longrightarrow> hmap_exact ?m0"
    "buckets (primary_table ?m0) \<noteq> []"
    using assms p1inv p1ne p1s p1e p1x
    by (simp_all add: hmap_inv_def all_entries_def HMap_size_def HTable_size_def hmap_exact_def)
  show ?thesis
  proof (cases "temporary_table m = None \<and>
      k_max_load_factor \<le> HTable_size p1 div HTable_capacity p1")
    case True
    then have none: "temporary_table ?m0 = None" by simp
    from start_resize_eq [OF this] obtain m1 where s: "start_resize ?m0 = Inr m1" by blast
    from p1 True s have "HMap_insert m node = help_resize m1"
      by (simp add: HMap_insert_unfold)
    moreover have "buckets (primary_table m1) \<noteq> []"
      using start_resize_eq [OF none] s by auto
    ultimately show ?thesis
      using start_resize_props [OF m0(1) none m0(5) s] m0(2,3,4) by (intro exI [of _ m1]) simp
  next
    case False
    with p1 have "HMap_insert m node = help_resize ?m0"
      by (auto simp add: HMap_insert_unfold)
    with m0 show ?thesis by (intro exI [of _ ?m0]) simp
  qed
qed

lemma help_resize_loop_primary_buckets:
  assumes "help_resize_loop w p t pos = Some (Inr (p', t', pos'))" "table_wf p" "buckets p \<noteq> []"
  shows "buckets p' \<noteq> []"
  using assms
proof (induction w p t pos "Inr (p', t', pos') :: error + 'a HTable \<times> 'a HTable \<times> nat"
    rule: help_resize_loop_induct)
  case stop
  then show ?case by simp
next
  case (move w p t pos c node rest p1)
  from HTable_insert_wf(1,2) [OF move.prems(1) move.hyps(6)] move.hyps(7) show ?case by simp
next
  case (skip w p t pos c)
  then show ?case by simp
qed

lemma help_resize_buckets:
  assumes "help_resize m = Some (Inr m')" "hmap_inv m" "buckets (primary_table m) \<noteq> []"
  shows "buckets (primary_table m') \<noteq> []"
  using assms(1)
proof (cases rule: help_resize_cases)
  case stable
  with assms(3) show ?thesis by simp
next
  case (slice t p' t' pos')
  from assms(2) have "table_wf (primary_table m)" by (simp add: hmap_inv_def table_inv_def)
  from help_resize_loop_primary_buckets [OF slice(2) this assms(3)] slice(3)
  show ?thesis by simp
qed

subsection \<open>HMap::find and HMap::remove\<close>

lemma HMap_find_slice:
  assumes "HMap_find m key c = Some (Inr (r, m'))"
  shows "help_resize m = Some (Inr m')"
  using assms by (auto simp: HMap_find_def split: option.splits sum.splits)

lemma HMap_find_eq:
  assumes "hmap_inv m" "help_resize m = Some (Inr m1)"
  shows "HMap_find m key c =
     Some (Inr (if found_in (primary_table m1) key c
                then (if buckets (primary_table m1) = [] then None
                      else chain_lookup c key (buckets (primary_table m1) !
                             (unat (hcode key) AND mask_m (primary_table m1))))
                else (case temporary_table m1 of None \<Rightarrow> None
                      | Some t \<Rightarrow> chain_lookup c key (buckets t ! (unat (hcode key) AND mask_m t))),
                m1))"
proof -
  from help_resize_inv [OF assms] have inv: "hmap_inv m1" .
  then have wf: "table_wf (primary_table m1)" by (simp add: hmap_inv_def table_inv_def)
  show ?thesis
  proof (cases "temporary_table m1")
    case None
    with assms(2) show ?thesis
      by (auto simp: HMap_find_def HTable_lookup_eq [OF wf] found_in_def split: option.splits)
  next
    case (Some t)
    with inv have "table_wf t" "buckets t \<noteq> []" by (simp_all add: hmap_inv_def table_inv_def)
    with assms(2) Some show ?thesis
      by (auto simp: HMap_find_def HTable_lookup_eq [OF wf] HTable_lookup_eq [of t] found_in_def
          split: option.splits)
  qed
qed

lemma found_in_iff:
  assumes "table_wf t" "table_placed t" "respects_hcode c"
  shows "found_in t key c \<longleftrightarrow> (\<exists>n\<in>set (entries t). c n key)"
proof -
  obtain r where r: "HTable_lookup t key c = Inr r"
    by (simp add: HTable_lookup_eq [OF assms(1)])
  have "found_in t key c \<longleftrightarrow> HTable_lookup t key c \<noteq> Inr None"
    using r by (cases r) (simp_all add: found_in_def)
  with HTable_lookup_None_iff [OF assms, of key] show ?thesis by simp
qed

lemma found_in_lookup:
  assumes "table_wf t"
  shows "found_in t key c \<longleftrightarrow> (\<exists>n. HTable_lookup t key c = Inr (Some n))"
    and "\<not> found_in t key c \<longleftrightarrow> HTable_lookup t key c = Inr None"
  by (auto simp: found_in_def HTable_lookup_eq [OF assms] split: option.splits)

lemma HMap_find_result:
  assumes "hmap_inv m" "respects_hcode c" "help_resize m = Some (Inr m1)"
  shows "\<exists>r. HMap_find m key c = Some (Inr (r, m1)) \<and>
           (r = None \<longleftrightarrow> (\<forall>n\<in>#all_entries m1. \<not> c n key)) \<and>
           (\<forall>n. r = Some n \<longrightarrow> c n key \<and> n \<in># all_entries m1) \<and>
           ((\<exists>n\<in>set (entries (primary_table m1)). c n key) \<longrightarrow>
              (\<exists>n\<in>set (entries (primary_table m1)). r = Some n))"
proof -
  from help_resize_inv [OF assms(1,3)] have inv: "hmap_inv m1" .
  then have wf: "table_wf (primary_table m1)" and pl: "table_placed (primary_table m1)"
    by (simp_all add: hmap_inv_def table_inv_def)
  note fp = found_in_iff [OF wf pl assms(2), of key]
  obtain r where r: "HMap_find m key c = Some (Inr (r, m1))"
    by (simp add: HMap_find_eq [OF assms(1,3)])
  show ?thesis
  proof (cases "found_in (primary_table m1) key c")
    case True
    then obtain n where n: "HTable_lookup (primary_table m1) key c = Inr (Some n)"
      by (auto simp: found_in_lookup [OF wf])
    with r assms(3) have rn: "r = Some n"
      by (auto simp: HMap_find_def)
    from HTable_lookup_Some [OF n] have "n \<in> set (entries (primary_table m1))" "c n key" by simp_all
    with r rn show ?thesis by (auto simp: all_entries_def)
  next
    case False
    then have none: "HTable_lookup (primary_table m1) key c = Inr None"
      using found_in_lookup(2) [OF wf] by blast
    from False fp have nop: "\<forall>n\<in>set (entries (primary_table m1)). \<not> c n key" by simp
    show ?thesis
    proof (cases "temporary_table m1")
      case None
      with r assms(3) none have "r = None" by (auto simp: HMap_find_def)
      with r nop None show ?thesis by (auto simp: all_entries_def)
    next
      case (Some t)
      with inv have wft: "table_wf t" and plt: "table_placed t"
        by (simp_all add: hmap_inv_def table_inv_def)
      obtain r' where r': "HTable_lookup t key c = Inr r'"
        by (simp add: HTable_lookup_eq [OF wft])
      with r assms(3) none Some have rr: "r = r'" by (auto simp: HMap_find_def)
      show ?thesis
      proof (cases r')
        case None
        with r' HTable_lookup_None_iff [OF wft plt assms(2), of key]
        have "\<forall>n\<in>set (entries t). \<not> c n key" by simp
        with r rr None nop Some show ?thesis by (auto simp: all_entries_def)
      next
        case (Some n)
        with r' HTable_lookup_Some [of t key c n]
        have "n \<in> set (entries t)" "c n key" by simp_all
        with r rr Some nop \<open>temporary_table m1 = Some t\<close> show ?thesis
          by (auto simp: all_entries_def)
      qed
    qed
  qed
qed

lemma HMap_remove_slice:
  assumes "HMap_remove m key c = Some (Inr (r, m'))"
  shows "\<exists>m1. help_resize m = Some (Inr m1) \<and>
           mset (entries (primary_table m')) \<subseteq># mset (entries (primary_table m1)) \<and>
           (case temporary_table m' of None \<Rightarrow> temporary_table m1 = None
            | Some t' \<Rightarrow> \<exists>t1. temporary_table m1 = Some t1 \<and> size_m t' = size_m t1 \<and>
                 mset (entries t') \<subseteq># mset (entries t1))"
proof -
  from assms obtain m1 where m1: "help_resize m = Some (Inr m1)"
    by (auto simp: HMap_remove_def split: option.splits sum.splits)
  from assms m1 obtain r1 p where p: "HTable_remove (primary_table m1) key c = Inr (r1, p)"
    by (cases "HTable_remove (primary_table m1) key c") (auto simp: HMap_remove_def)
  from HTable_remove_entries [OF p]
  have sub: "mset (entries p) \<subseteq># mset (entries (primary_table m1))" by simp
  show ?thesis
  proof (cases "\<exists>t. r1 = None \<and> temporary_table m1 = Some t")
    case False
    with assms m1 p have "m' = m1\<lparr>primary_table := p\<rparr>"
      by (cases r1; cases "temporary_table m1") (auto simp: HMap_remove_def)
    with sub m1 show ?thesis by (auto split: option.splits)
  next
    case True
    then obtain t where t: "r1 = None" "temporary_table m1 = Some t" by blast
    with assms m1 p obtain t' where t': "HTable_remove t key c = Inr (r, t')"
      "m' = m1\<lparr>primary_table := p, temporary_table := Some t'\<rparr>"
      by (cases "HTable_remove t key c") (auto simp: HMap_remove_def)
    from HTable_remove_entries [OF t'(1)] have "mset (entries t') \<subseteq># mset (entries t)" by simp
    with sub m1 t t' HTable_remove_fields(1) [OF t'(1)] show ?thesis by auto
  qed
qed

lemma HMap_remove_result:
  assumes "hmap_inv m" "help_resize m = Some (Inr m1)"
  shows "\<exists>r m'. HMap_remove m key c = Some (Inr (r, m')) \<and> hmap_inv m' \<and>
           length (buckets (primary_table m')) = length (buckets (primary_table m1)) \<and>
           all_entries m1 = all_entries m' + (case r of None \<Rightarrow> {#} | Some n \<Rightarrow> {#n#}) \<and>
           HMap_size m' = HMap_size m1"
proof -
  from help_resize_inv [OF assms] have inv: "hmap_inv m1" .
  then have pinv: "table_inv (primary_table m1)" by (simp add: hmap_inv_def)
  then have wf: "table_wf (primary_table m1)" by (simp add: table_inv_def)
  obtain r1 p where p: "HTable_remove (primary_table m1) key c = Inr (r1, p)"
    using HTable_remove_ok [OF wf] by blast
  note pf = HTable_remove_fields [OF p] and pe = HTable_remove_entries [OF p]
    and pi = HTable_remove_inv [OF pinv p]
  show ?thesis
  proof (cases "\<exists>t. r1 = None \<and> temporary_table m1 = Some t")
    case False
    with assms(2) p have "HMap_remove m key c = Some (Inr (r1, m1\<lparr>primary_table := p\<rparr>))"
      by (cases r1; cases "temporary_table m1") (auto simp: HMap_remove_def)
    moreover have "hmap_inv (m1\<lparr>primary_table := p\<rparr>)"
      using inv pi by (simp add: hmap_inv_def)
    ultimately show ?thesis using pf pe
      by (auto simp: all_entries_def HMap_size_def HTable_size_def)
  next
    case True
    then obtain t where t: "r1 = None" "temporary_table m1 = Some t" by blast
    with inv have tinv: "table_inv t" and tne: "buckets t \<noteq> []" by (simp_all add: hmap_inv_def)
    then have wft: "table_wf t" by (simp add: table_inv_def)
    obtain r t' where t': "HTable_remove t key c = Inr (r, t')"
      using HTable_remove_ok [OF wft] by blast
    note tf = HTable_remove_fields [OF t'] and te = HTable_remove_entries [OF t']
      and ti = HTable_remove_inv [OF tinv t']
    from assms(2) p t t' have
      "HMap_remove m key c = Some (Inr (r, m1\<lparr>primary_table := p, temporary_table := Some t'\<rparr>))"
      by (auto simp: HMap_remove_def)
    moreover have "hmap_inv (m1\<lparr>primary_table := p, temporary_table := Some t'\<rparr>)"
      using pi ti tf(3) tne by (auto simp: hmap_inv_def)
    ultimately show ?thesis using pf pe tf te t
      by (auto simp: all_entries_def HMap_size_def HTable_size_def)
  qed
qed

subsection \<open>Sequences of operations\<close>

lemma hmap_inv_default: "hmap_inv HMap_default"
  by (simp add: hmap_inv_def HMap_default_def HTable_default_def table_inv_def table_wf_def
      table_placed_def table_counted_def entries_def)

lemma hmap_exact_default: "hmap_exact HMap_default"
  by (simp add: hmap_exact_def HMap_default_def HTable_default_def table_exact_def entries_def)

lemma apply_op_inv:
  assumes "hmap_inv m" "apply_op m x = Some r"
  shows "\<exists>m'. r = Inr m' \<and> hmap_inv m' \<and>
           (is_Insert x \<or> buckets (primary_table m) \<noteq> [] \<longrightarrow> buckets (primary_table m') \<noteq> [])"
proof (cases x)
  case (Insert node)
  from HMap_insert_slice [OF assms(1), of node] obtain m1 where
    m1: "HMap_insert m node = help_resize m1" "hmap_inv m1" "buckets (primary_table m1) \<noteq> []"
    by blast
  with assms(2) Insert have h: "help_resize m1 = Some r" by simp
  from help_resize_no_error [OF m1(2) h] obtain m' where m': "r = Inr m'" by blast
  with h help_resize_inv [OF m1(2)] help_resize_buckets [OF _ m1(2,3)] show ?thesis by auto
next
  case (Find key c)
  with assms(2) obtain r0 where r0: "help_resize m = Some r0"
    by (auto simp: HMap_find_def split: option.splits)
  from help_resize_no_error [OF assms(1) r0] obtain m1 where m1: "help_resize m = Some (Inr m1)"
    using r0 by blast
  from HMap_find_eq [OF assms(1) m1, of key c] assms(2) Find have "r = Inr m1" by auto
  with help_resize_inv [OF assms(1) m1] help_resize_buckets [OF m1 assms(1)] Find
  show ?thesis by auto
next
  case (Remove key c)
  with assms(2) obtain r0 where r0: "help_resize m = Some r0"
    by (auto simp: HMap_remove_def split: option.splits)
  from help_resize_no_error [OF assms(1) r0] obtain m1 where m1: "help_resize m = Some (Inr m1)"
    using r0 by blast
  from HMap_remove_result [OF assms(1) m1, of key c] obtain r1 m' where
    m': "HMap_remove m key c = Some (Inr (r1, m'))" "hmap_inv m'"
    "length (buckets (primary_table m')) = length (buckets (primary_table m1))"
    by blast
  with assms(2) Remove have "r = Inr m'" by auto
  with m' help_resize_buckets [OF m1 assms(1)] Remove show ?thesis by auto
qed

lemma run_ops_inv:
  assumes "hmap_inv m" "run_ops m ops = Some r"
  shows "\<exists>m'. r = Inr m' \<and> hmap_inv m' \<and>
           ((\<exists>x\<in>set ops. is_Insert x) \<or> buckets (primary_table m) \<noteq> []
              \<longrightarrow> buckets (primary_table m') \<noteq> [])"
  using assms
proof (induction ops arbitrary: m)
  case Nil
  then show ?case by auto
next
  case (Cons x xs)
  from Cons.prems(2) obtain r1 where r1: "apply_op m x = Some r1"
    by (cases "apply_op m x") auto
  from apply_op_inv [OF Cons.prems(1) r1] obtain m1 where
    m1: "r1 = Inr m1" "hmap_inv m1"
    "is_Insert x \<or> buckets (primary_table m) \<noteq> [] \<longrightarrow> buckets (primary_table m1) \<noteq> []"
    by blast
  with Cons.prems(2) r1 have "run_ops m1 xs = Some r" by simp
  from Cons.IH [OF m1(2) this] m1(3) show ?case by auto
qed

lemma apply_op_exact:
  assumes "hmap_inv m" "hmap_exact m" "\<not> is_Remove x"
  shows "\<exists>m'. apply_op m x = Some (Inr m') \<and> hmap_inv m' \<and> hmap_exact m' \<and>
           HMap_size m' = HMap_size m + (if is_Insert x then 1 else 0) \<and>
           all_entries m' = all_entries m + (case x of Insert node \<Rightarrow> {#node#} | _ \<Rightarrow> {#})"
proof (cases x)
  case (Insert node)
  from HMap_insert_slice [OF assms(1), of node] assms(2) obtain m1 where
    m1: "HMap_insert m node = help_resize m1" "hmap_inv m1" "hmap_exact m1"
    "all_entries m1 = add_mset node (all_entries m)" "HMap_size m1 = HMap_size m + 1"
    by blast
  from help_resize_terminates [OF m1(2,3)] obtain m' where m': "help_resize m1 = Some (Inr m')"
    by blast
  with m1 Insert help_resize_inv [OF m1(2) m'] help_resize_exact [OF m1(2,3) m']
    help_resize_size [OF m1(2) m'] help_resize_entries [OF m1(2) m']
  show ?thesis by simp
next
  case (Find key c)
  from help_resize_terminates [OF assms(1,2)] obtain m' where m': "help_resize m = Some (Inr m')"
    by blast
  with Find HMap_find_eq [OF assms(1) m', of key c] help_resize_inv [OF assms(1) m']
    help_resize_exact [OF assms(1,2) m'] help_resize_size [OF assms(1) m']
    help_resize_entries [OF assms(1) m']
  show ?thesis by simp
next
  case (Remove key c)
  with assms(3) show ?thesis by simp
qed

subsection \<open>The states of the scenario\<close>

lemma demo_started_eq: "start_resize demo_full = Inr demo_started"
  by code_simp

lemma demo_mid_slice: "help_resize demo_started = Some (Inr demo_mid)"
  by code_simp

lemma demo_mid_run: "run_ops HMap_default (insert_keys [0..<32]) = Some (Inr demo_mid)"
  by code_simp

lemma demo_late_insert: "HMap_insert demo_mid (key_node 32) = Some (Inr demo_late)"
  by code_simp

lemma demo_mid_inv: "hmap_inv demo_mid"
  using run_ops_inv [OF hmap_inv_default demo_mid_run] by simp

lemma respects_hcode_same_key: "respects_hcode same_key"
  by (simp add: respects_hcode_def same_key_def)

lemma run_ops_exact:
  assumes "hmap_inv m" "hmap_exact m" "\<forall>x\<in>set ops. \<not> is_Remove x"
  shows "\<exists>m'. run_ops m ops = Some (Inr m') \<and> hmap_inv m' \<and> hmap_exact m' \<and>
           HMap_size m' = HMap_size m + length (filter is_Insert ops)"
  using assms
proof (induction ops arbitrary: m)
  case Nil
  then show ?case by simp
next
  case (Cons x xs)
  from Cons.prems(3) have x: "\<not> is_Remove x" and xs: "\<forall>x\<in>set xs. \<not> is_Remove x" by simp_all
  from apply_op_exact [OF Cons.prems(1,2) x] obtain m1 where
    m1: "apply_op m x = Some (Inr m1)" "hmap_inv m1" "hmap_exact m1"
    "HMap_size m1 = HMap_size m + (if is_Insert x then 1 else 0)"
    by blast
  from Cons.IH [OF m1(2,3) xs] obtain m' where
    "run_ops m1 xs = Some (Inr m')" "hmap_inv m'" "hmap_exact m'"
    "HMap_size m' = HMap_size m1 + length (filter is_Insert xs)"
    by blast
  with m1 show ?case by simp
qed

lemma hmap_exact_size:
  "hmap_exact m \<Longrightarrow> size (all_entries m) = HMap_size m"
  by (auto simp: hmap_exact_def all_entries_def HMap_size_def HTable_size_def table_exact_def
      split: option.splits)

lemma table_wf_capacity_pow2:
  assumes "table_wf t" "buckets t \<noteq> []"
  shows "\<exists>k\<ge>2. HTable_capacity t = 2 ^ k"
  using assms by (auto simp: table_wf_def HTable_capacity_def)

lemma run_ops_append:
  "run_ops m (xs @ ys) =
     (case run_ops m xs of Some (Inr m') \<Rightarrow> run_ops m' ys | r \<Rightarrow> r)"
  by (induction xs arbitrary: m) (auto split: option.splits sum.splits)

lemma demo_removed_run:
  "run_ops HMap_default (insert_keys [0..<32] @ [Remove (key_node 7) same_key])
     = Some (Inr demo_removed)"
  by code_simp

text \<open>
  After keys 0..31 have been inserted and key 7 has been removed while it was still in the
  retiring table, that table holds one node and its size counter is 2. The next operation
  moves the node and then steps through the empty buckets for ever: it never returns.
\<close>

lemma help_resize_demo_removed: "help_resize demo_removed = None"
proof -
  let ?p = "primary_table demo_removed"
  let ?t = "keys_table [[], [], [], [3]] 3 2"
  have t: "temporary_table demo_removed = Some ?t" by (simp add: demo_removed_def)
  have inv: "hmap_inv demo_removed"
    using run_ops_inv [OF hmap_inv_default demo_removed_run] by simp
  with t have wf: "table_wf ?p" "table_wf ?t" "buckets ?t \<noteq> []"
    by (simp_all add: hmap_inv_def table_inv_def)
  have len: "length (entries ?t) < size_m ?t" "0 + length (entries ?t) < max_work"
    by (simp_all add: keys_table_def entries_def max_work_def)
  from help_resize_loop_diverges [OF wf len, of "resizing_pos demo_removed"] t
  show ?thesis by (simp add: help_resize_def)
qed

lemma find_never_returns_after_remove:
  "run_ops HMap_default
     (insert_keys [0..<32] @ [Remove (key_node 7) same_key, Find (key_node 3) same_key]) = None"
proof -
  have "HMap_find demo_removed (key_node 3) same_key = None"
    by (simp add: HMap_find_def help_resize_demo_removed)
  then have "run_ops demo_removed [Find (key_node 3) same_key] = None" by simp
  moreover have "run_ops HMap_default
      ((insert_keys [0..<32] @ [Remove (key_node 7) same_key]) @ [Find (key_node 3) same_key])
    = run_ops demo_removed [Find (key_node 3) same_key]"
    by (subst run_ops_append) (simp add: demo_removed_run)
  ultimately show ?thesis by simp
qed

lemma all_entries_tmp: "all_entries m = mset (entries (primary_table m)) + tmp_entries m"
  by (simp add: all_entries_def tmp_entries_def)

lemma demo_full_inv: "hmap_inv demo_full"
proof -
  have "table_wf (primary_table demo_full)"
    unfolding table_wf_def by (intro disjI2 exI [of _ 2]) (simp add: demo_full_def keys_table_def)
  moreover have "table_placed (primary_table demo_full)" by code_simp
  moreover have "table_counted (primary_table demo_full)" by code_simp
  ultimately show ?thesis by (simp add: hmap_inv_def table_inv_def demo_full_def)
qed

lemma demo_full_exact: "hmap_exact demo_full"
  by code_simp

lemma demo_started_inv: "hmap_inv demo_started"
proof -
  have "temporary_table demo_full = None" "buckets (primary_table demo_full) \<noteq> []"
    by (simp_all add: demo_full_def keys_table_def)
  from start_resize_props(1) [OF demo_full_inv this demo_started_eq] show ?thesis .
qed

lemma demo_started_exact: "hmap_exact demo_started"
  by code_simp

lemma count_matching_pos:
  "0 < count_matching c key (mset xs) \<longleftrightarrow> (\<exists>n\<in>set xs. c n key)"
  by (induction xs) (auto simp: count_matching_def)

lemma count_matching_add:
  "count_matching c key (A + B) = count_matching c key A + count_matching c key B"
  by (simp add: count_matching_def)

lemma found_in_tmp_iff:
  assumes "hmap_inv m" "respects_hcode c"
  shows "found_in (primary_table m) key c \<longleftrightarrow>
           0 < count_matching c key (mset (entries (primary_table m)))"
    and "found_in_tmp m key c \<longleftrightarrow> 0 < count_matching c key (tmp_entries m)"
proof -
  from assms(1) have "table_wf (primary_table m)" "table_placed (primary_table m)"
    by (simp_all add: hmap_inv_def table_inv_def)
  from found_in_iff [OF this assms(2), of key]
  show "found_in (primary_table m) key c \<longleftrightarrow>
           0 < count_matching c key (mset (entries (primary_table m)))"
    by (simp add: count_matching_pos)
  show "found_in_tmp m key c \<longleftrightarrow> 0 < count_matching c key (tmp_entries m)"
  proof (cases "temporary_table m")
    case None
    then show ?thesis by (simp add: found_in_tmp_def tmp_entries_def count_matching_def)
  next
    case (Some t)
    with assms(1) have "table_wf t" "table_placed t" by (simp_all add: hmap_inv_def table_inv_def)
    from found_in_iff [OF this assms(2), of key] Some show ?thesis
      by (simp add: found_in_tmp_def tmp_entries_def count_matching_pos)
  qed
qed

lemma unique_match_one_table:
  assumes "hmap_inv m" "respects_hcode c" "count_matching c key (all_entries m) = 1"
  shows "found_in (primary_table m) key c \<noteq> found_in_tmp m key c"
proof -
  from assms(3) have
    "count_matching c key (mset (entries (primary_table m))) +
     count_matching c key (tmp_entries m) = 1"
    by (simp add: all_entries_tmp count_matching_add)
  then show ?thesis
    unfolding found_in_tmp_iff [OF assms(1,2)] by linarith
qed

lemma apply_op_Find:
  "apply_op m (Find key c) = Some (Inr m') \<longleftrightarrow> (\<exists>r. HMap_find m key c = Some (Inr (r, m')))"
  by (cases "HMap_find m key c") (auto simp: map_sum_def split: sum.splits)

lemma apply_op_Remove:
  "apply_op m (Remove key c) = Some (Inr m') \<longleftrightarrow> (\<exists>r. HMap_remove m key c = Some (Inr (r, m')))"
  by (cases "HMap_remove m key c") (auto simp: map_sum_def split: sum.splits)

lemma HMap_find_order:
  assumes "hmap_inv m" "help_resize m = Some (Inr m1)" "HMap_find m key c = Some (Inr (r, m1))"
  shows "(found_in (primary_table m1) key c \<longrightarrow> HTable_lookup (primary_table m1) key c = Inr r) \<and>
         (\<not> found_in (primary_table m1) key c \<longrightarrow>
            (case temporary_table m1 of None \<Rightarrow> r = None
             | Some t \<Rightarrow> HTable_lookup t key c = Inr r))"
proof -
  from help_resize_inv [OF assms(1,2)] have inv: "hmap_inv m1" .
  then have wf: "table_wf (primary_table m1)" by (simp add: hmap_inv_def table_inv_def)
  obtain r1 where r1: "HTable_lookup (primary_table m1) key c = Inr r1"
    by (simp add: HTable_lookup_eq [OF wf])
  show ?thesis
  proof (cases r1)
    case (Some n)
    with r1 assms(2,3) show ?thesis by (auto simp: HMap_find_def found_in_def)
  next
    case None
    show ?thesis
    proof (cases "temporary_table m1")
      case tn: None
      with None r1 assms(2,3) show ?thesis by (auto simp: HMap_find_def found_in_def)
    next
      case (Some t)
      with inv have "table_wf t" by (simp add: hmap_inv_def table_inv_def)
      then obtain r2 where "HTable_lookup t key c = Inr r2"
        by (simp add: HTable_lookup_eq)
      with None Some r1 assms(2,3) show ?thesis by (auto simp: HMap_find_def found_in_def)
    qed
  qed
qed

lemma count_matching_zero:
  "count_matching c key M = 0 \<longleftrightarrow> (\<forall>n\<in>#M. \<not> c n key)"
  by (induction M) (auto simp: count_matching_def)

lemma apply_op_returns:
  assumes "hmap_inv m" "hmap_exact m"
  shows "\<exists>m'. apply_op m x = Some (Inr m')"
proof (cases "is_Remove x")
  case False
  from apply_op_exact [OF assms False] show ?thesis by blast
next
  case True
  then obtain key c where x: "x = Remove key c" by (cases x) auto
  from help_resize_terminates [OF assms] obtain m1 where "help_resize m = Some (Inr m1)" by blast
  from HMap_remove_result [OF assms(1) this, of key c] x show ?thesis by auto
qed

lemma apply_op_entries:
  assumes "hmap_inv m" "apply_op m x = Some (Inr m')" "\<not> is_Remove x"
  shows "all_entries m' = all_entries m + (case x of Insert node \<Rightarrow> {#node#} | _ \<Rightarrow> {#})"
    and "hmap_exact m \<Longrightarrow> hmap_exact m'"
proof -
  have "all_entries m' = all_entries m + (case x of Insert node \<Rightarrow> {#node#} | _ \<Rightarrow> {#}) \<and>
        (hmap_exact m \<longrightarrow> hmap_exact m')"
  proof (cases x)
    case (Insert node)
    from HMap_insert_slice [OF assms(1), of node] obtain m1 where
      m1: "HMap_insert m node = help_resize m1" "hmap_inv m1"
      "all_entries m1 = add_mset node (all_entries m)" "hmap_exact m \<longrightarrow> hmap_exact m1"
      by blast
    with assms(2) Insert have h: "help_resize m1 = Some (Inr m')" by simp
    from help_resize_entries [OF m1(2) h] help_resize_exact [OF m1(2) _ h] m1(3,4) Insert
    show ?thesis by auto
  next
    case (Find key c)
    with assms(2) obtain r where "HMap_find m key c = Some (Inr (r, m'))"
      using apply_op_Find [of m key c m'] by blast
    then have h: "help_resize m = Some (Inr m')" by (rule HMap_find_slice)
    from help_resize_entries [OF assms(1) h] help_resize_exact [OF assms(1) _ h] Find
    show ?thesis by auto
  next
    case (Remove key c)
    with assms(3) show ?thesis by simp
  qed
  then show "all_entries m' = all_entries m + (case x of Insert node \<Rightarrow> {#node#} | _ \<Rightarrow> {#})"
    and "hmap_exact m \<Longrightarrow> hmap_exact m'" by simp_all
qed

lemma run_ops_entries:
  assumes "hmap_inv m" "run_ops m ops = Some (Inr m')" "\<forall>x\<in>set ops. \<not> is_Remove x"
  shows "hmap_inv m' \<and>
         count_matching c K (all_entries m) \<le> count_matching c K (all_entries m') \<and>
         ((\<forall>x\<in>set ops. \<forall>node. x = Insert node \<longrightarrow> \<not> c node K) \<longrightarrow>
            count_matching c K (all_entries m') = count_matching c K (all_entries m)) \<and>
         (hmap_exact m \<longrightarrow> hmap_exact m')"
  using assms
proof (induction ops arbitrary: m)
  case Nil
  then show ?case by simp
next
  case (Cons x xs)
  from Cons.prems(2) obtain r1 where r1: "apply_op m x = Some r1"
    by (cases "apply_op m x") auto
  from apply_op_inv [OF Cons.prems(1) r1] obtain m1 where m1: "r1 = Inr m1" "hmap_inv m1"
    by blast
  with r1 Cons.prems(2) have run: "run_ops m1 xs = Some (Inr m')" by simp
  from Cons.prems(3) have x: "\<not> is_Remove x" and xs: "\<forall>x\<in>set xs. \<not> is_Remove x" by simp_all
  from r1 m1(1) have a: "apply_op m x = Some (Inr m1)" by simp
  note e = apply_op_entries [OF Cons.prems(1) a x]
  have le: "count_matching c K (all_entries m) \<le> count_matching c K (all_entries m1)"
    by (simp add: e(1) count_matching_add)
  have eq: "count_matching c K (all_entries m1) = count_matching c K (all_entries m)"
    if "\<forall>node. x = Insert node \<longrightarrow> \<not> c node K"
    using that by (cases x) (simp_all add: e(1) count_matching_add count_matching_def)
  from Cons.IH [OF m1(2) run xs] le eq e(2) show ?case by auto
qed

lemma hmap_inv_exact_keys_table:
  "hmap_inv demo_late" "hmap_exact demo_late" "hmap_exact demo_mid"
proof -
  have "run_ops HMap_default (insert_keys [0..<33]) = Some (Inr demo_late)" by code_simp
  from run_ops_inv [OF hmap_inv_default this] show "hmap_inv demo_late" by simp
  show "hmap_exact demo_late" "hmap_exact demo_mid" by code_simp+
qed

text \<open>
  In a state that satisfies the invariant, the migration slice runs for ever exactly when the
  retiring table holds fewer than \<open>max_work\<close> nodes and fewer nodes than its size counter
  says; find returns exactly when its slice does.
\<close>

lemma help_resize_None_iff:
  assumes "hmap_inv m"
  shows "help_resize m = None \<longleftrightarrow>
           (\<exists>t. temporary_table m = Some t \<and> length (entries t) < size_m t \<and>
                length (entries t) < max_work)"
proof (cases "temporary_table m")
  case None
  then show ?thesis by (simp add: help_resize_def)
next
  case (Some t)
  with assms have wf: "table_wf (primary_table m)" "table_wf t" "buckets t \<noteq> []"
    by (simp_all add: hmap_inv_def table_inv_def)
  have "help_resize m = None \<longleftrightarrow>
      help_resize_loop 0 (primary_table m) t (resizing_pos m) = None"
    using Some by (auto simp: help_resize_def split: option.splits sum.splits)
  with help_resize_loop_None_iff [OF wf, of 0 "resizing_pos m"] Some show ?thesis by simp
qed

lemma HMap_find_None_iff: "HMap_find m key c = None \<longleftrightarrow> help_resize m = None"
  by (auto simp: HMap_find_def split: option.splits sum.splits)

lemma demo_removed_inv: "hmap_inv demo_removed"
  using run_ops_inv [OF hmap_inv_default demo_removed_run] by simp

section \<open>The claims\<close>

text \<open>
  C2 (HTable::remove decrements the size counter): the code unlinks the first matching node
  and returns it, but it never writes the size counter. Here keys 4 and 0 collide in bucket 0
  of a table of size 2; removing key 0 returns its node and leaves key 4 in the bucket, and
  the size is still 2.
\<close>

theorem HTable_remove_keeps_size:
  "HTable_remove (keys_table [[4, 0], [], [], []] 3 2) (key_node 0) same_key =
     Inr (Some (key_node 0), keys_table [[4], [], [], []] 3 2) \<and>
   HTable_size (keys_table [[4], [], [], []] 3 2) = 2"
  by code_simp

text \<open>
  C3, as stated, fails: inserting the same key twice stores two nodes, and size() is 2 for one
  distinct key.
\<close>

theorem size_counts_duplicates:
  "status (run_ops HMap_default [Insert (key_node 1), Insert (key_node 1)]) = Some (2, 4, None) \<and>
   card (set [key_node 1, key_node 1]) = 1"
  by code_simp

text \<open>
  C3, amended: for every finite sequence of insert and find operations from the empty
  dictionary, every operation returns, and afterwards size() is the number of inserts of the
  sequence (a key inserted twice counts twice), which is the number of nodes stored.
\<close>

theorem size_counts_inserts:
  assumes "\<forall>x\<in>set ops. \<not> is_Remove x"
  shows "\<exists>m. run_ops HMap_default ops = Some (Inr m) \<and>
           HMap_size m = length (filter is_Insert ops) \<and>
           size (all_entries m) = HMap_size m"
proof -
  have "HMap_size (HMap_default :: 'a HMap) = 0"
    by (simp add: HMap_size_def HMap_default_def HTable_default_def HTable_size_def)
  with run_ops_exact [OF hmap_inv_default hmap_exact_default assms] hmap_exact_size
  show ?thesis by fastforce
qed

theorem size_counts_inserts_witness:
  "run_ops HMap_default (insert_keys [0..<32]) = Some (Inr demo_mid) \<and>
   HMap_size demo_mid = length (filter is_Insert (insert_keys [0..<32])) \<and>
   size (all_entries demo_mid) = HMap_size demo_mid \<and>
   HMap_size demo_mid = 32"
proof -
  have "\<forall>x\<in>set (insert_keys [0..<32]). \<not> is_Remove x"
    by (auto simp: insert_keys_def)
  from size_counts_inserts [OF this] have
    "HMap_size demo_mid = length (filter is_Insert (insert_keys [0..<32])) \<and>
     size (all_entries demo_mid) = HMap_size demo_mid"
    by (simp add: demo_mid_run)
  moreover have "HMap_size demo_mid = 32" by code_simp
  ultimately show ?thesis by (simp add: demo_mid_run)
qed

text \<open>
  C6, as stated, fails: a find on a dictionary that was never inserted into leaves the
  current table without buckets, and its capacity() is 1.
\<close>

theorem capacity_of_unused_dictionary:
  "HMap_find HMap_default (key_node 0) same_key = Some (Inr (None, HMap_default)) \<and>
   HTable_capacity (primary_table (HMap_default :: nat HMap)) = 1"
  by code_simp

text \<open>
  C6, amended: after every sequence of operations from the empty dictionary that contains an
  insert, capacity() of the current table is a power of two that is at least 4; and after
  every sequence of operations, capacity() of the retiring table, when there is one, is a
  power of two that is at least 4.
\<close>

theorem capacity_power_of_two:
  assumes "run_ops HMap_default ops = Some (Inr m)"
  shows "((\<exists>x\<in>set ops. is_Insert x) \<longrightarrow> (\<exists>k\<ge>2. HTable_capacity (primary_table m) = 2 ^ k)) \<and>
         (\<forall>t. temporary_table m = Some t \<longrightarrow> (\<exists>k\<ge>2. HTable_capacity t = 2 ^ k))"
proof -
  from run_ops_inv [OF hmap_inv_default assms]
  have inv: "hmap_inv m"
    and ne: "(\<exists>x\<in>set ops. is_Insert x) \<longrightarrow> buckets (primary_table m) \<noteq> []"
    by auto
  from inv have "table_wf (primary_table m)" by (simp add: hmap_inv_def table_inv_def)
  with ne have "(\<exists>x\<in>set ops. is_Insert x) \<longrightarrow> (\<exists>k\<ge>2. HTable_capacity (primary_table m) = 2 ^ k)"
    using table_wf_capacity_pow2 by blast
  moreover have "\<exists>k\<ge>2. HTable_capacity t = 2 ^ k" if "temporary_table m = Some t" for t
  proof -
    from inv that have "table_wf t" "buckets t \<noteq> []" by (simp_all add: hmap_inv_def table_inv_def)
    then show ?thesis by (rule table_wf_capacity_pow2)
  qed
  ultimately show ?thesis by blast
qed

theorem capacity_power_of_two_witness:
  "run_ops HMap_default (insert_keys [0..<32]) = Some (Inr demo_mid) \<and>
   is_Insert (Insert (key_node 0)) \<and> Insert (key_node 0) \<in> set (insert_keys [0..<32]) \<and>
   HTable_capacity (primary_table demo_mid) = 8 \<and>
   map_option HTable_capacity (temporary_table demo_mid) = Some 4 \<and>
   (\<exists>k\<ge>2. HTable_capacity (primary_table demo_mid) = 2 ^ k) \<and>
   (\<exists>k\<ge>2. map_option HTable_capacity (temporary_table demo_mid) = Some (2 ^ k))"
proof -
  have mem: "Insert (key_node 0) \<in> set (insert_keys [0..<32])"
    by (simp add: insert_keys_def)
  then have ex: "\<exists>x\<in>set (insert_keys [0..<32]). is_Insert x" by (intro bexI [OF _ mem]) simp
  obtain t where t: "temporary_table demo_mid = Some t" by (simp add: demo_mid_def)
  from capacity_power_of_two [OF demo_mid_run] ex t
  have "(\<exists>k\<ge>2. HTable_capacity (primary_table demo_mid) = 2 ^ k)"
    "(\<exists>k\<ge>2. HTable_capacity t = 2 ^ k)" by blast+
  moreover have "HTable_capacity (primary_table demo_mid) = 8"
    "map_option HTable_capacity (temporary_table demo_mid) = Some 4" by code_simp+
  ultimately show ?thesis using mem t by (simp add: demo_mid_run)
qed

text \<open>
  C7, as stated, fails: the resize to capacity 8 is already in progress when key 32 is
  inserted. After keys 0..30 the dictionary has size 31, capacity 4 and no retiring table;
  the insert of key 31 (size 32, load factor 32 div 4 = 8) starts the resize.
\<close>

theorem resize_started_by_key_31:
  "status (run_ops HMap_default (insert_keys [0..<31])) = Some (31, 4, None) \<and>
   status (run_ops HMap_default (insert_keys [0..<32])) = Some (32, 8, Some 4)"
  by code_simp

text \<open>
  C7, amended: from the empty dictionary, after keys 0..30 the capacity is 4 and nothing is
  retiring; the insert of key 31 (size 32, capacity 4, load factor 8) starts the resize to
  capacity 8 and migrates 15 nodes; the insert of key 32 (size 33) starts no resize and
  migrates 15 more; one further operation drains the retiring table; then all 33 keys are
  found and size() is 33.
\<close>

theorem scenario_33_keys:
  "status (run_ops HMap_default (insert_keys [0..<31])) = Some (31, 4, None) \<and>
   run_ops HMap_default (insert_keys [0..<32]) = Some (Inr demo_mid) \<and>
   status (Some (Inr demo_mid)) = Some (32, 8, Some 4) \<and>
   run_ops HMap_default (insert_keys [0..<33]) = Some (Inr demo_late) \<and>
   status (Some (Inr demo_late)) = Some (33, 8, Some 4) \<and>
   status (run_ops HMap_default (insert_keys [0..<33] @ [Find (key_node 0) same_key]))
     = Some (33, 8, None) \<and>
   all_findable (run_ops HMap_default (insert_keys [0..<33] @ [Find (key_node 0) same_key]))
     [0..<33]"
  by code_simp



text \<open>
  C9: one call of help_resize leaves the dictionary unchanged as a collection of nodes: when
  it returns, size() is what it was, the multiset of stored nodes is what it was, and the
  nodes the retiring table lost are the nodes the current table gained. The call returns
  whenever the size counters are exact. The states are those that satisfy the invariant of
  the operations (lemma run_ops_inv).
\<close>

theorem help_resize_preserves:
  assumes "hmap_inv m"
  shows "(hmap_exact m \<longrightarrow> (\<exists>m'. help_resize m = Some (Inr m'))) \<and>
         (\<forall>m'. help_resize m = Some (Inr m') \<longrightarrow>
            HMap_size m' = HMap_size m \<and> all_entries m' = all_entries m \<and>
            (\<exists>moved. mset (entries (primary_table m')) = mset (entries (primary_table m)) + moved \<and>
                      tmp_entries m = tmp_entries m' + moved))"
proof (intro conjI impI allI)
  assume "hmap_exact m"
  with assms show "\<exists>m'. help_resize m = Some (Inr m')" by (rule help_resize_terminates)
next
  fix m' assume h: "help_resize m = Some (Inr m')"
  show "HMap_size m' = HMap_size m" using assms h by (rule help_resize_size)
  show e: "all_entries m' = all_entries m" using assms h by (rule help_resize_entries)
  from help_resize_moved [OF h] obtain moved where
    p: "mset (entries (primary_table m')) = mset (entries (primary_table m)) + moved" by blast
  from e have "mset (entries (primary_table m)) + (moved + tmp_entries m')
      = mset (entries (primary_table m)) + tmp_entries m"
    by (simp add: all_entries_tmp p)
  then have "tmp_entries m = tmp_entries m' + moved" by (simp add: add.commute)
  with p show "\<exists>moved. mset (entries (primary_table m')) = mset (entries (primary_table m)) + moved \<and>
                      tmp_entries m = tmp_entries m' + moved"
    by blast
qed

theorem help_resize_preserves_witness:
  "hmap_inv demo_started \<and> hmap_exact demo_started \<and>
   help_resize demo_started = Some (Inr demo_mid) \<and>
   HMap_size demo_mid = HMap_size demo_started \<and> HMap_size demo_started = 32 \<and>
   all_entries demo_mid = all_entries demo_started \<and>
   (\<exists>moved. mset (entries (primary_table demo_mid))
               = mset (entries (primary_table demo_started)) + moved \<and>
             tmp_entries demo_started = tmp_entries demo_mid + moved)"
proof -
  have "HMap_size demo_started = 32" by code_simp
  with help_resize_preserves [OF demo_started_inv] demo_mid_slice demo_started_inv
    demo_started_exact
  show ?thesis by simp
qed

text \<open>
  C10: while a retiring table exists, no insert, find or remove call (and no call of
  help_resize) puts a node into it: after the call the retiring table is gone, or its size is
  not larger and its nodes are among the nodes it had; and insert leaves the new node in the
  current table. The call returns in every state that satisfies the invariant with exact size
  counters.
\<close>

theorem retiring_table_never_grows:
  assumes "temporary_table m = Some t"
  shows "(hmap_inv m \<and> hmap_exact m \<longrightarrow> (\<exists>m'. apply_op m x = Some (Inr m'))) \<and>
         (apply_op m x = Some (Inr m') \<longrightarrow>
            (case temporary_table m' of None \<Rightarrow> True
             | Some t' \<Rightarrow> HTable_size t' \<le> HTable_size t \<and> mset (entries t') \<subseteq># mset (entries t)) \<and>
            (\<forall>node. x = Insert node \<longrightarrow> node \<in> set (entries (primary_table m')))) \<and>
         (help_resize m = Some (Inr m1) \<longrightarrow>
            (case temporary_table m1 of None \<Rightarrow> True
             | Some t' \<Rightarrow> HTable_size t' \<le> HTable_size t \<and> mset (entries t') \<subseteq># mset (entries t)))"
proof -
  have slice: "case temporary_table b of None \<Rightarrow> True
      | Some t' \<Rightarrow> HTable_size t' \<le> HTable_size t \<and> mset (entries t') \<subseteq># mset (entries t)"
    if "help_resize a = Some (Inr b)" "temporary_table a = Some t" for a b
    using help_resize_tmp [OF that(1)] that(2)
    by (auto simp: HTable_size_def split: option.splits)
  have "(case temporary_table m' of None \<Rightarrow> True
             | Some t' \<Rightarrow> HTable_size t' \<le> HTable_size t \<and> mset (entries t') \<subseteq># mset (entries t)) \<and>
        (\<forall>node. x = Insert node \<longrightarrow> node \<in> set (entries (primary_table m')))"
    if run: "apply_op m x = Some (Inr m')"
  proof (cases x)
    case (Insert node)
    with run have "HMap_insert m node = Some (Inr m')" by simp
    from HMap_insert_before_slice [OF this] assms obtain m0 where
      m0: "help_resize m0 = Some (Inr m')" "temporary_table m0 = Some t"
      "node \<in># mset (entries (primary_table m0))"
      by blast
    from help_resize_moved [OF m0(1)] obtain moved where
      "mset (entries (primary_table m')) = mset (entries (primary_table m0)) + moved" by blast
    with m0(3) have "node \<in># mset (entries (primary_table m'))"
      by (simp only: union_iff) simp
    with slice [OF m0(1,2)] Insert show ?thesis by simp
  next
    case (Find key c)
    with run obtain r where "HMap_find m key c = Some (Inr (r, m'))"
      using apply_op_Find [of m key c m'] by blast
    then have "help_resize m = Some (Inr m')" by (rule HMap_find_slice)
    from slice [OF this assms] Find show ?thesis by simp
  next
    case (Remove key c)
    with run obtain r where "HMap_remove m key c = Some (Inr (r, m'))"
      using apply_op_Remove [of m key c m'] by blast
    from HMap_remove_slice [OF this] obtain m0 where
      m0: "help_resize m = Some (Inr m0)"
      "case temporary_table m' of None \<Rightarrow> temporary_table m0 = None
       | Some t' \<Rightarrow> \<exists>t1. temporary_table m0 = Some t1 \<and> size_m t' = size_m t1 \<and>
             mset (entries t') \<subseteq># mset (entries t1)"
      by blast
    from slice [OF m0(1) assms] m0(2) Remove show ?thesis
      by (auto simp: HTable_size_def split: option.splits)
  qed
  moreover have "\<exists>m'. apply_op m x = Some (Inr m')" if "hmap_inv m \<and> hmap_exact m"
    using that by (simp add: apply_op_returns)
  ultimately show ?thesis using slice [OF _ assms, of m1] by blast
qed

theorem retiring_table_never_grows_witness:
  "hmap_inv demo_mid \<and> hmap_exact demo_mid \<and>
   temporary_table demo_mid =
     Some (keys_table [[], [1], [30, 26, 22, 18, 14, 10, 6, 2], [31, 27, 23, 19, 15, 11, 7, 3]] 3 17) \<and>
   apply_op demo_mid (Insert (key_node 32)) = Some (Inr demo_late) \<and>
   temporary_table demo_late = Some (keys_table [[], [], [], [7, 3]] 3 2) \<and>
   HTable_size (keys_table [[], [], [], [7, 3]] 3 2)
     \<le> HTable_size (keys_table [[], [1], [30, 26, 22, 18, 14, 10, 6, 2],
                                 [31, 27, 23, 19, 15, 11, 7, 3]] 3 17) \<and>
   mset (entries (keys_table [[], [], [], [7, 3]] 3 2))
     \<subseteq># mset (entries (keys_table [[], [1], [30, 26, 22, 18, 14, 10, 6, 2],
                                      [31, 27, 23, 19, 15, 11, 7, 3]] 3 17)) \<and>
   key_node 32 \<in> set (entries (primary_table demo_late)) \<and>
   help_resize demo_started = Some (Inr demo_mid) \<and>
   HTable_size (keys_table [[], [1], [30, 26, 22, 18, 14, 10, 6, 2],
                            [31, 27, 23, 19, 15, 11, 7, 3]] 3 17)
     \<le> HTable_size (primary_table demo_full)"
proof -
  have a: "temporary_table demo_mid =
     Some (keys_table [[], [1], [30, 26, 22, 18, 14, 10, 6, 2], [31, 27, 23, 19, 15, 11, 7, 3]] 3 17)"
    by (simp add: demo_mid_def)
  have b: "apply_op demo_mid (Insert (key_node 32)) = Some (Inr demo_late)"
    by (simp add: demo_late_insert)
  have c: "temporary_table demo_late = Some (keys_table [[], [], [], [7, 3]] 3 2)"
    by (simp add: demo_late_def)
  have d: "temporary_table demo_started = Some (primary_table demo_full)"
    by (simp add: demo_started_def)
  have e: "hmap_exact demo_mid" by code_simp
  from retiring_table_never_grows [OF a, of "Insert (key_node 32)" demo_late demo_late]
    retiring_table_never_grows [OF d, of "Insert (key_node 32)" demo_late demo_mid]
  show ?thesis using a b c d e demo_mid_slice demo_mid_inv by simp
qed

text \<open>
  C8, as stated, fails for a comparator that accepts a node whose hash code differs from the
  probe's: find looks only into the bucket that the probe's hash code selects. Key 0 is stored
  with hash code 0; a probe with key 0 and hash code 1 matches it under the comparator that
  looks at the key only, and find returns the empty result.
\<close>

theorem find_misses_other_bucket:
  "run_ops HMap_default [Insert (key_node 0)] = Some (Inr demo_one) \<and>
   HMap_find demo_one \<lparr>hcode = 1, payload = 0\<rparr> same_payload = Some (Inr (None, demo_one)) \<and>
   same_payload (key_node 0) \<lparr>hcode = 1, payload = 0\<rparr> \<and>
   key_node 0 \<in> set (entries (primary_table demo_one))"
  by code_simp

text \<open>
  C8, amended: for every probe and every comparator that accepts only nodes with the probe's
  hash code, in every state that satisfies the invariant: find runs one migration slice, then
  looks the probe up in the current table and, only when it is not there and a retiring table
  exists, in the retiring table. When the size counters are exact, find returns, its result
  is not an error value, and it is the empty result exactly when no stored node matches the
  probe; and whenever find returns at all, its result is of that kind. find does not return
  exactly when the retiring table holds fewer than 15 nodes and fewer nodes than its size
  counter says, which only the missing decrement of HTable::remove (C2) brings about.
\<close>

theorem find_searches_both_tables:
  assumes "hmap_inv m" "respects_hcode c"
  shows "(HMap_find m key c = None \<longleftrightarrow>
            (\<exists>t. temporary_table m = Some t \<and> length (entries t) < size_m t \<and>
                 length (entries t) < 15)) \<and>
         (hmap_exact m \<longrightarrow>
            (\<exists>r m1. HMap_find m key c = Some (Inr (r, m1)) \<and> help_resize m = Some (Inr m1) \<and>
               all_entries m1 = all_entries m \<and>
               (r = None \<longleftrightarrow> (\<forall>n\<in>#all_entries m. \<not> c n key)) \<and>
               (\<forall>n. r = Some n \<longrightarrow> c n key \<and> n \<in># all_entries m) \<and>
               (found_in (primary_table m1) key c \<longrightarrow>
                  HTable_lookup (primary_table m1) key c = Inr r) \<and>
               (\<not> found_in (primary_table m1) key c \<longrightarrow>
                  (case temporary_table m1 of None \<Rightarrow> r = None
                   | Some t \<Rightarrow> HTable_lookup t key c = Inr r)))) \<and>
         (\<forall>x. HMap_find m key c = Some x \<longrightarrow>
            (\<exists>r m1. x = Inr (r, m1) \<and> help_resize m = Some (Inr m1) \<and>
               all_entries m1 = all_entries m \<and>
               (r = None \<longleftrightarrow> (\<forall>n\<in>#all_entries m. \<not> c n key)) \<and>
               (\<forall>n. r = Some n \<longrightarrow> c n key \<and> n \<in># all_entries m) \<and>
               (found_in (primary_table m1) key c \<longrightarrow>
                  HTable_lookup (primary_table m1) key c = Inr r) \<and>
               (\<not> found_in (primary_table m1) key c \<longrightarrow>
                  (case temporary_table m1 of None \<Rightarrow> r = None
                   | Some t \<Rightarrow> HTable_lookup t key c = Inr r))))"
proof -
  have res: "\<exists>r. HMap_find m key c = Some (Inr (r, m1)) \<and> all_entries m1 = all_entries m \<and>
               (r = None \<longleftrightarrow> (\<forall>n\<in>#all_entries m. \<not> c n key)) \<and>
               (\<forall>n. r = Some n \<longrightarrow> c n key \<and> n \<in># all_entries m) \<and>
               (found_in (primary_table m1) key c \<longrightarrow>
                  HTable_lookup (primary_table m1) key c = Inr r) \<and>
               (\<not> found_in (primary_table m1) key c \<longrightarrow>
                  (case temporary_table m1 of None \<Rightarrow> r = None
                   | Some t \<Rightarrow> HTable_lookup t key c = Inr r))"
    if m1: "help_resize m = Some (Inr m1)" for m1
  proof -
    from HMap_find_result [OF assms m1, of key] obtain r where
      r: "HMap_find m key c = Some (Inr (r, m1))"
      "r = None \<longleftrightarrow> (\<forall>n\<in>#all_entries m1. \<not> c n key)"
      "\<forall>n. r = Some n \<longrightarrow> c n key \<and> n \<in># all_entries m1"
      by blast
    note e = help_resize_entries [OF assms(1) m1]
    from HMap_find_order [OF assms(1) m1 r(1)] r e show ?thesis
      by (intro exI [of _ r]) simp
  qed
  have total: "\<exists>r m1. HMap_find m key c = Some (Inr (r, m1)) \<and> help_resize m = Some (Inr m1) \<and>
               all_entries m1 = all_entries m \<and>
               (r = None \<longleftrightarrow> (\<forall>n\<in>#all_entries m. \<not> c n key)) \<and>
               (\<forall>n. r = Some n \<longrightarrow> c n key \<and> n \<in># all_entries m) \<and>
               (found_in (primary_table m1) key c \<longrightarrow>
                  HTable_lookup (primary_table m1) key c = Inr r) \<and>
               (\<not> found_in (primary_table m1) key c \<longrightarrow>
                  (case temporary_table m1 of None \<Rightarrow> r = None
                   | Some t \<Rightarrow> HTable_lookup t key c = Inr r))"
    if "hmap_exact m"
  proof -
    from help_resize_terminates [OF assms(1) that] obtain m1 where
      m1: "help_resize m = Some (Inr m1)" by blast
    from res [OF m1] m1 show ?thesis by blast
  qed
  have partial: "\<exists>r m1. x = Inr (r, m1) \<and> help_resize m = Some (Inr m1) \<and>
               all_entries m1 = all_entries m \<and>
               (r = None \<longleftrightarrow> (\<forall>n\<in>#all_entries m. \<not> c n key)) \<and>
               (\<forall>n. r = Some n \<longrightarrow> c n key \<and> n \<in># all_entries m) \<and>
               (found_in (primary_table m1) key c \<longrightarrow>
                  HTable_lookup (primary_table m1) key c = Inr r) \<and>
               (\<not> found_in (primary_table m1) key c \<longrightarrow>
                  (case temporary_table m1 of None \<Rightarrow> r = None
                   | Some t \<Rightarrow> HTable_lookup t key c = Inr r))"
    if x: "HMap_find m key c = Some x" for x
  proof -
    from x obtain r0 where "help_resize m = Some r0"
      by (auto simp: HMap_find_def split: option.splits)
    with help_resize_no_error [OF assms(1)] obtain m1 where m1: "help_resize m = Some (Inr m1)"
      by blast
    from res [OF m1] obtain r where r: "HMap_find m key c = Some (Inr (r, m1))" by blast
    with x have "x = Inr (r, m1)" by simp
    with res [OF m1] m1 r show ?thesis by auto
  qed
  have none: "HMap_find m key c = None \<longleftrightarrow>
            (\<exists>t. temporary_table m = Some t \<and> length (entries t) < size_m t \<and>
                 length (entries t) < 15)"
    using help_resize_None_iff [OF assms(1)] by (simp add: HMap_find_None_iff max_work_def)
  show ?thesis by (intro conjI impI allI) (rule none, erule total, erule partial)
qed

theorem find_searches_both_tables_witness:
  "hmap_inv demo_started \<and> respects_hcode same_key \<and> hmap_exact demo_started \<and>
   help_resize demo_started = Some (Inr demo_mid) \<and>
   all_entries demo_mid = all_entries demo_started \<and>
   HMap_find demo_started (key_node 99) same_key = Some (Inr (None, demo_mid)) \<and>
   count_matching same_key (key_node 99) (all_entries demo_started) = 0 \<and>
   HMap_find demo_started (key_node 7) same_key = Some (Inr (Some (key_node 7), demo_mid)) \<and>
   key_node 7 \<in># all_entries demo_started \<and>
   \<not> found_in (primary_table demo_mid) (key_node 7) same_key \<and>
   found_in_tmp demo_mid (key_node 7) same_key \<and>
   hmap_inv demo_removed \<and>
   temporary_table demo_removed = Some (keys_table [[], [], [], [3]] 3 2) \<and>
   length (entries (keys_table [[], [], [], [3]] 3 2)) = 1 \<and>
   size_m (keys_table [[], [], [], [3]] 3 2) = 2 \<and>
   HMap_find demo_removed (key_node 99) same_key = None"
proof -
  have t: "temporary_table demo_removed = Some (keys_table [[], [], [], [3]] 3 2)"
    by (simp add: demo_removed_def)
  have tl: "length (entries (keys_table [[], [], [], [3]] 3 2)) = 1"
    "size_m (keys_table [[], [], [], [3]] 3 2) = 2"
    by (simp_all add: keys_table_def entries_def)
  from find_searches_both_tables [OF demo_removed_inv respects_hcode_same_key,
      where key = "key_node 99", THEN conjunct1] t tl
  have r99: "HMap_find demo_removed (key_node 99) same_key = None" by simp
  have f99: "HMap_find demo_started (key_node 99) same_key = Some (Inr (None, demo_mid))"
    by code_simp
  have f7: "HMap_find demo_started (key_node 7) same_key = Some (Inr (Some (key_node 7), demo_mid))"
    by code_simp
  note T99 = find_searches_both_tables [OF demo_started_inv respects_hcode_same_key,
      where key = "key_node 99", THEN conjunct2, THEN conjunct1, rule_format,
      OF demo_started_exact]
  note T7 = find_searches_both_tables [OF demo_started_inv respects_hcode_same_key,
      where key = "key_node 7", THEN conjunct2, THEN conjunct1, rule_format,
      OF demo_started_exact]
  from T99 f99
  have "\<forall>n\<in>#all_entries demo_started. \<not> same_key n (key_node 99)"
    and e: "all_entries demo_mid = all_entries demo_started" by auto
  then have c99: "count_matching same_key (key_node 99) (all_entries demo_started) = 0"
    by (simp add: count_matching_zero)
  from T7 f7
  have m7: "key_node 7 \<in># all_entries demo_started" by auto
  have "\<not> found_in (primary_table demo_mid) (key_node 7) same_key"
    "found_in_tmp demo_mid (key_node 7) same_key"
    by code_simp+
  with f99 f7 c99 m7 e demo_started_inv demo_started_exact respects_hcode_same_key demo_mid_slice
    demo_removed_inv t tl r99
  show ?thesis by simp
qed

text \<open>
  C1, as stated, fails: insert stores a key that is inserted twice as two nodes. After key 1
  has been inserted twice and keys 2..31 once, the resize is in progress, one node of key 1
  has moved to the current table and the other is still in the retiring table: the key is
  found in both.
\<close>

theorem duplicate_key_in_both_tables:
  "found_in_both (run_ops HMap_default (insert_keys (1 # [1..<32]))) (key_node 1) same_key"
  by code_simp

text \<open>
  C1, amended: in every state that satisfies the invariant (every state after an operation,
  and every state on which start_resize and help_resize run), for every key K that matches at
  least one stored node under a comparator that accepts only nodes with the probe's hash code:
  lookup finds a node matching K in the current or in the retiring table, in the current one
  when nothing is retiring; when exactly one stored node matches K, lookup does not find K in
  both; and when the size counters are exact, find returns a node matching K. The stored nodes
  stay the same through start_resize and through every help_resize slice, and through every
  sequence of inserts and finds the invariant holds, the nodes matching K stay stored, and no
  further node matches K unless one is inserted. So the key is found in exactly one table at
  every point of the resize cycle, whatever inserts and finds are interleaved. Whenever find
  returns at all it returns a node matching K; it does not return exactly when the retiring
  table holds fewer than 15 nodes and fewer nodes than its size counter says, which only the
  missing decrement of HTable::remove (C2) brings about; and every sequence of operations
  that returns, removes included, ends without an error in a state that satisfies the
  invariant.
\<close>

theorem stored_key_found_in_one_table:
  assumes "hmap_inv m" "respects_hcode c" "0 < count_matching c K (all_entries m)"
  shows "(found_in (primary_table m) K c \<or> found_in_tmp m K c) \<and>
         (temporary_table m = None \<longrightarrow> found_in (primary_table m) K c) \<and>
         (count_matching c K (all_entries m) = 1 \<longrightarrow>
            \<not> (found_in (primary_table m) K c \<and> found_in_tmp m K c)) \<and>
         (hmap_exact m \<longrightarrow> (\<exists>n m'. HMap_find m K c = Some (Inr (Some n, m')) \<and> c n K)) \<and>
         (\<forall>x. HMap_find m K c = Some x \<longrightarrow> (\<exists>n m'. x = Inr (Some n, m') \<and> c n K)) \<and>
         (HMap_find m K c = None \<longleftrightarrow>
            (\<exists>t. temporary_table m = Some t \<and> length (entries t) < size_m t \<and>
                 length (entries t) < 15)) \<and>
         (\<forall>ops r. run_ops m ops = Some r \<longrightarrow> (\<exists>m'. r = Inr m' \<and> hmap_inv m')) \<and>
         (\<forall>m1. temporary_table m = None \<and> start_resize m = Inr m1 \<longrightarrow>
            hmap_inv m1 \<and> all_entries m1 = all_entries m \<and> (hmap_exact m \<longrightarrow> hmap_exact m1)) \<and>
         (\<forall>m'. help_resize m = Some (Inr m') \<longrightarrow>
            hmap_inv m' \<and> all_entries m' = all_entries m \<and> (hmap_exact m \<longrightarrow> hmap_exact m')) \<and>
         (\<forall>ops m'. run_ops m ops = Some (Inr m') \<and> (\<forall>x\<in>set ops. \<not> is_Remove x) \<longrightarrow>
            hmap_inv m' \<and> 0 < count_matching c K (all_entries m') \<and>
            ((\<forall>x\<in>set ops. \<forall>node. x = Insert node \<longrightarrow> \<not> c node K) \<longrightarrow>
               count_matching c K (all_entries m') = count_matching c K (all_entries m)) \<and>
            (hmap_exact m \<longrightarrow> hmap_exact m'))"
proof -
  from assms(3) have
    "0 < count_matching c K (mset (entries (primary_table m))) \<or>
     0 < count_matching c K (tmp_entries m)"
    by (simp add: all_entries_tmp count_matching_add)
  then have some: "found_in (primary_table m) K c \<or> found_in_tmp m K c"
    by (simp add: found_in_tmp_iff [OF assms(1,2)])
  have stable: "found_in (primary_table m) K c" if "temporary_table m = None"
    using some that by (simp add: found_in_tmp_def)
  have one: "\<not> (found_in (primary_table m) K c \<and> found_in_tmp m K c)"
    if "count_matching c K (all_entries m) = 1"
    using unique_match_one_table [OF assms(1,2) that] by auto
  from assms(3) have "count_matching c K (all_entries m) \<noteq> 0" by simp
  then have ex: "\<not> (\<forall>n\<in>#all_entries m. \<not> c n K)"
    unfolding count_matching_zero .
  have find_partial: "\<exists>n m'. x = Inr (Some n, m') \<and> c n K" if x: "HMap_find m K c = Some x" for x
  proof -
    from x obtain r0 where "help_resize m = Some r0"
      by (auto simp: HMap_find_def split: option.splits)
    with help_resize_no_error [OF assms(1)] obtain m1 where h: "help_resize m = Some (Inr m1)"
      by blast
    from HMap_find_result [OF assms(1,2) h, of K] help_resize_entries [OF assms(1) h] ex x
    show ?thesis by auto
  qed
  have find_total: "\<exists>n m'. HMap_find m K c = Some (Inr (Some n, m')) \<and> c n K" if "hmap_exact m"
  proof -
    from help_resize_terminates [OF assms(1) that] obtain m1 where
      h: "help_resize m = Some (Inr m1)" by blast
    from HMap_find_result [OF assms(1,2) h, of K] obtain r where
      "HMap_find m K c = Some (Inr (r, m1))" by blast
    with find_partial show ?thesis by blast
  qed
  have start: "hmap_inv m1 \<and> all_entries m1 = all_entries m \<and> (hmap_exact m \<longrightarrow> hmap_exact m1)"
    if "temporary_table m = None \<and> start_resize m = Inr m1" for m1
  proof -
    from that assms(3) have "0 < count_matching c K (mset (entries (primary_table m)))"
      by (simp add: all_entries_def)
    then have "entries (primary_table m) \<noteq> []" by (auto simp: count_matching_pos)
    then have ne: "buckets (primary_table m) \<noteq> []" by (auto simp: entries_def)
    from that have n: "temporary_table m = None" and s: "start_resize m = Inr m1" by simp_all
    from start_resize_props(1,2,6) [OF assms(1) n ne s] show ?thesis by blast
  qed
  have slice: "hmap_inv m' \<and> all_entries m' = all_entries m \<and> (hmap_exact m \<longrightarrow> hmap_exact m')"
    if "help_resize m = Some (Inr m')" for m'
    using help_resize_inv [OF assms(1) that] help_resize_entries [OF assms(1) that]
      help_resize_exact [OF assms(1) _ that] by blast
  have run: "hmap_inv m' \<and> 0 < count_matching c K (all_entries m') \<and>
            ((\<forall>x\<in>set ops. \<forall>node. x = Insert node \<longrightarrow> \<not> c node K) \<longrightarrow>
               count_matching c K (all_entries m') = count_matching c K (all_entries m)) \<and>
            (hmap_exact m \<longrightarrow> hmap_exact m')"
    if "run_ops m ops = Some (Inr m') \<and> (\<forall>x\<in>set ops. \<not> is_Remove x)" for ops m'
  proof -
    from that have r: "run_ops m ops = Some (Inr m')" and nr: "\<forall>x\<in>set ops. \<not> is_Remove x"
      by simp_all
    from run_ops_entries [OF assms(1) r nr, of c K] assms(3) show ?thesis by auto
  qed
  have none: "HMap_find m K c = None \<longleftrightarrow>
            (\<exists>t. temporary_table m = Some t \<and> length (entries t) < size_m t \<and>
                 length (entries t) < 15)"
    using help_resize_None_iff [OF assms(1)] by (simp add: HMap_find_None_iff max_work_def)
  show ?thesis
    apply (intro conjI)
    subgoal by (rule some)
    subgoal using stable by blast
    subgoal using one by blast
    subgoal using find_total by blast
    subgoal using find_partial by blast
    subgoal by (rule none)
    subgoal using run_ops_inv [OF assms(1)] by blast
    subgoal using start by blast
    subgoal using slice by blast
    subgoal using run by blast
    done
qed

theorem stored_key_found_in_one_table_witness:
  "hmap_inv demo_late \<and> respects_hcode same_key \<and> hmap_exact demo_late \<and>
   run_ops HMap_default (insert_keys [0..<33]) = Some (Inr demo_late) \<and>
   count_matching same_key (key_node 7) (all_entries demo_late) = 1 \<and>
   (found_in (primary_table demo_late) (key_node 7) same_key
      \<or> found_in_tmp demo_late (key_node 7) same_key) \<and>
   \<not> (found_in (primary_table demo_late) (key_node 7) same_key
        \<and> found_in_tmp demo_late (key_node 7) same_key) \<and>
   found_in_tmp demo_late (key_node 7) same_key \<and>
   HMap_find demo_late (key_node 7) same_key = Some (Inr (Some (key_node 7), demo_drained)) \<and>
   same_key (key_node 7) (key_node 7) \<and>
   temporary_table demo_drained = None \<and>
   found_in (primary_table demo_drained) (key_node 7) same_key \<and>
   temporary_table demo_full = None \<and> start_resize demo_full = Inr demo_started \<and>
   hmap_inv demo_started \<and> all_entries demo_started = all_entries demo_full \<and>
   help_resize demo_started = Some (Inr demo_mid) \<and>
   hmap_inv demo_mid \<and> all_entries demo_mid = all_entries demo_started \<and>
   run_ops demo_mid [Insert (key_node 32), Find (key_node 0) same_key] = Some (Inr demo_drained) \<and>
   hmap_inv demo_drained \<and>
   count_matching same_key (key_node 7) (all_entries demo_drained)
     = count_matching same_key (key_node 7) (all_entries demo_mid)"
proof -
  note rk = respects_hcode_same_key
  have one_late: "count_matching same_key (key_node 7) (all_entries demo_late) = 1"
    and one_full: "count_matching same_key (key_node 7) (all_entries demo_full) = 1"
    and one_started: "count_matching same_key (key_node 7) (all_entries demo_started) = 1"
    and one_mid: "count_matching same_key (key_node 7) (all_entries demo_mid) = 1"
    and one_drained: "count_matching same_key (key_node 7) (all_entries demo_drained) = 1"
    by code_simp+
  have run33: "run_ops HMap_default (insert_keys [0..<33]) = Some (Inr demo_late)" by code_simp
  have f: "HMap_find demo_late (key_node 7) same_key = Some (Inr (Some (key_node 7), demo_drained))"
    by code_simp
  have run2: "run_ops demo_mid [Insert (key_node 32), Find (key_node 0) same_key]
      = Some (Inr demo_drained)"
    by code_simp
  have t: "found_in_tmp demo_late (key_node 7) same_key" by code_simp
  have n: "temporary_table demo_full = None" "temporary_table demo_drained = None"
    by (simp_all add: demo_full_def demo_drained_def)
  have ops: "\<forall>x\<in>set [Insert (key_node 32), Find (key_node 0) same_key]. \<not> is_Remove x"
    "\<forall>x\<in>set [Insert (key_node 32), Find (key_node 0) same_key].
       \<forall>node. x = Insert node \<longrightarrow> \<not> same_key node (key_node 7)"
    by (simp_all add: same_key_def key_node_def)
  have pos: "0 < count_matching same_key (key_node 7) (all_entries demo_late)"
    "0 < count_matching same_key (key_node 7) (all_entries demo_full)"
    "0 < count_matching same_key (key_node 7) (all_entries demo_started)"
    "0 < count_matching same_key (key_node 7) (all_entries demo_mid)"
    "0 < count_matching same_key (key_node 7) (all_entries demo_drained)"
    by (simp_all add: one_late one_full one_started one_mid one_drained)
  note L = stored_key_found_in_one_table [OF hmap_inv_exact_keys_table(1) rk pos(1)]
  note l1 = L [THEN conjunct1]
    L [THEN conjunct2, THEN conjunct2, THEN conjunct1, rule_format, OF one_late]
  from L [THEN conjunct2, THEN conjunct2, THEN conjunct2, THEN conjunct1, rule_format,
      OF hmap_inv_exact_keys_table(2)] f
  have l2: "same_key (key_node 7) (key_node 7)" by auto
  note F = stored_key_found_in_one_table [OF demo_full_inv rk pos(2)]
  from F [THEN conjunct2, THEN conjunct2, THEN conjunct2, THEN conjunct2, THEN conjunct2,
      THEN conjunct2, THEN conjunct2, THEN conjunct1, rule_format, OF conjI [OF n(1) demo_started_eq]]
  have s1: "hmap_inv demo_started" "all_entries demo_started = all_entries demo_full"
    by simp_all
  note S = stored_key_found_in_one_table [OF demo_started_inv rk pos(3)]
  from S [THEN conjunct2, THEN conjunct2, THEN conjunct2, THEN conjunct2, THEN conjunct2,
      THEN conjunct2, THEN conjunct2, THEN conjunct2, THEN conjunct1, rule_format, OF demo_mid_slice]
  have s2: "hmap_inv demo_mid" "all_entries demo_mid = all_entries demo_started"
    by simp_all
  note M = stored_key_found_in_one_table [OF demo_mid_inv rk pos(4)]
  note M8 = M [THEN conjunct2, THEN conjunct2, THEN conjunct2, THEN conjunct2, THEN conjunct2,
      THEN conjunct2, THEN conjunct2, THEN conjunct2, THEN conjunct2, THEN spec, THEN spec, THEN mp, OF conjI [OF run2 ops(1)]]
  from M8 have s3a: "hmap_inv demo_drained" by (rule conjunct1)
  from M8 [THEN conjunct2, THEN conjunct2, THEN conjunct1, THEN mp, OF ops(2)]
  have s3b: "count_matching same_key (key_node 7) (all_entries demo_drained)
       = count_matching same_key (key_node 7) (all_entries demo_mid)" .
  note s3 = s3a s3b
  note D = stored_key_found_in_one_table [OF s3(1) rk pos(5)]
  from D [THEN conjunct2, THEN conjunct1, rule_format, OF n(2)]
  have s4: "found_in (primary_table demo_drained) (key_node 7) same_key" .
  from l1 l2 s1 s2 s3 s4 one_late run33 f run2 t n rk hmap_inv_exact_keys_table(1,2)
    demo_started_eq demo_mid_slice
  show ?thesis by simp
qed

end
